theory Spec2Isabelle
  imports Main
begin

section \<open>The kanzo controller: phase runner and deployment executor\<close>

text \<open>
  The development embeds \<^verbatim>\<open>kanzo/core/controller.py\<close>: the function
  \<^verbatim>\<open>wait_for_runners\<close> and the class \<^verbatim>\<open>Controller\<close> with its
  methods \<^verbatim>\<open>__init__\<close>, \<^verbatim>\<open>_iter_phase\<close>, \<^verbatim>\<open>_run_phase\<close>,
  \<^verbatim>\<open>run_init\<close>, \<^verbatim>\<open>run_deployment\<close>, \<^verbatim>\<open>run_cleanup\<close> and
  \<^verbatim>\<open>register_status_callback\<close>. Mutation of \<^verbatim>\<open>self\<close> is explicit
  state passing, every exception is a value of type \<open>error\<close>, and a method returns the
  controller as it is when the method returns or raises.
\<close>

subsection \<open>Python values and exceptions\<close>

text \<open>
  Hosts, manifests and markers are hashable Python values: they are members of sets and
  keys of dictionaries. A string of Python is a sequence of one-character strings.
\<close>

datatype pyval = PNone | PInt int | PStr string | PTuple "pyval list"

datatype error =
    AttributeError string
  | KeyError pyval
  | ValueError
  | TypeError
  | Exc string

text \<open>
  \<open>Exc x\<close> is an exception \<open>x\<close> raised by code outside the controller (a plugin step
  or a method of a drone). \<open>ValueError\<close> is what unpacking a sequence of the wrong
  length raises, \<open>TypeError\<close> what iterating a value that is no sequence raises.
\<close>

fun iter :: "pyval \<Rightarrow> error + pyval list" where
  "iter (PTuple xs) = Inr xs"
| "iter (PStr s) = Inr (map (\<lambda>ch. PStr [ch]) s)"
| "iter PNone = Inl TypeError"
| "iter (PInt n) = Inl TypeError"

text \<open>The tuple assignment \<^verbatim>\<open>a, b = v\<close>.\<close>

definition unpack2 :: "pyval \<Rightarrow> error + pyval \<times> pyval" where
  "unpack2 v =
     (case iter v of
        Inl e \<Rightarrow> Inl e
      | Inr xs \<Rightarrow> (case xs of [a, b] \<Rightarrow> Inr (a, b) | _ \<Rightarrow> Inl ValueError))"

subsection \<open>Plugins, drones and the plan\<close>

text \<open>
  Code outside the controller runs inside greenlets. What such a callable does is given
  by the number of times it hands control back to its parent before it ends, and by how
  it ends.
\<close>

datatype ending = Returns | Raises string

type_synonym script = "nat \<times> ending"

text \<open>
  A record returned by a plan step: host, manifest, marker and the prerequisite markers
  (or \<^verbatim>\<open>None\<close>).
\<close>

type_synonym plan_record = "pyval \<times> pyval \<times> pyval \<times> pyval set option"

text \<open>
  A step is a callable of a plugin. \<open>per_host\<close> is what it does when a greenlet runs
  it for the drone of a host, \<open>planned\<close> what it returns (or raises) when the plan
  phase calls it with the host information collected so far.
\<close>

record step =
  func_name :: string
  per_host :: "pyval \<Rightarrow> script"
  planned :: "(pyval \<rightharpoonup> pyval) \<Rightarrow> string + plan_record list option"

text \<open>The named tuple \<^verbatim>\<open>PluginData\<close>.\<close>

record plugin =
  name :: string
  modules :: "string list"
  resources :: "string list"
  init_steps :: "step list"
  prep_steps :: "step list"
  plan_steps :: "step list"
  clean_steps :: "step list"

text \<open>
  The class \<^verbatim>\<open>Drone\<close> is not part of the sources at hand; the behaviour of its
  methods is a parameter of the model.
\<close>

record drone =
  host :: pyval
  init_host :: ending
  discover :: "string + pyval"
  configure :: ending
  add_manifest :: "pyval \<Rightarrow> ending"
  make_build :: script
  deploy :: "pyval \<Rightarrow> script"
  clean :: ending

text \<open>
  The dictionary \<^verbatim>\<open>self._plan\<close>. \<^verbatim>\<open>__init__\<close> creates it with the five
  keys \<^verbatim>\<open>'manifests'\<close>, \<^verbatim>\<open>'dependecy'\<close>, \<^verbatim>\<open>'waiting'\<close>,
  \<^verbatim>\<open>'in-progress'\<close> and \<^verbatim>\<open>'finished'\<close>. The other methods read the key
  \<^verbatim>\<open>'dependency'\<close>; the field \<open>dependency\<close> is the entry under that key,
  \<open>None\<close> when the dictionary has no such key. \<open>manifests\<close> is an ordered
  dictionary: an association list in insertion order.
\<close>

record plan =
  manifests :: "(pyval \<times> (pyval \<times> pyval) list) list"
  dependecy :: "pyval \<rightharpoonup> pyval set"
  dependency :: "(pyval \<rightharpoonup> pyval set) option"
  waiting :: "pyval set"
  in_progress :: "pyval set"
  finished :: "pyval set"

text \<open>
  Greenlets are identified by the work they do. The history records when the work of a
  greenlet starts and how it ends (\<open>Failed t x\<close>: it raised \<open>x\<close>); it is the only
  observation of the code that runs on the hosts.
\<close>

datatype task =
    StepTask string pyval
  | InstallTask pyval
  | BuildTask pyval
  | DeployTask pyval pyval pyval
  | CleanTask pyval

datatype observation = Started task | Finished task | Failed task string

text \<open>
  The state of a controller. \<open>callbacks\<close> holds the keys of
  \<^verbatim>\<open>self._callbacks\<close> and \<open>delivered\<close> the calls the status callback has
  received. \<open>drones\<close> lists the values of \<^verbatim>\<open>self._drones\<close>, each filed
  under its host. \<open>added\<close> lists the calls of \<^verbatim>\<open>add_manifest\<close> that
  returned.
\<close>

record controller =
  callbacks :: "string set"
  delivered :: "(string \<times> string \<times> string) list"
  plugins :: "plugin list"
  drones :: "drone list"
  info :: "pyval \<rightharpoonup> pyval"
  plan :: plan
  added :: "(pyval \<times> pyval) list"
  history :: "observation list"

type_synonym outcome = "(error + unit) \<times> controller"

text \<open>Sequencing of two statements: an exception of the first skips the second.\<close>

definition and_then :: "outcome \<Rightarrow> (controller \<Rightarrow> outcome) \<Rightarrow> outcome" where
  "and_then r f = (case r of (Inl e, c) \<Rightarrow> (Inl e, c) | (Inr u, c) \<Rightarrow> f c)"

subsection \<open>Construction and the status callback\<close>

text \<open>
  The registration loop of \<^verbatim>\<open>__init__\<close> iterates \<^verbatim>\<open>self._drones\<close>,
  that is the hosts and not the drones, and calls \<^verbatim>\<open>add_resource\<close> and
  \<^verbatim>\<open>add_module\<close> on them.
\<close>

fun register_host :: "plugin \<Rightarrow> pyval list \<Rightarrow> error + unit" where
  "register_host plug [] = Inr ()"
| "register_host plug (h # hs) =
     (if resources plug \<noteq> [] then Inl (AttributeError ''add_resource'')
      else if modules plug \<noteq> [] then Inl (AttributeError ''add_module'')
      else register_host plug hs)"

fun register_plugins :: "plugin list \<Rightarrow> pyval list \<Rightarrow> error + unit" where
  "register_plugins [] hs = Inr ()"
| "register_plugins (plug # plugs) hs =
     (case register_host plug hs of
        Inl e \<Rightarrow> Inl e
      | Inr u \<Rightarrow> register_plugins plugs hs)"

definition empty_plan :: plan where
  "empty_plan =
     \<lparr>manifests = [], dependecy = Map.empty, dependency = None,
      waiting = {}, in_progress = {}, finished = {}\<rparr>"

definition init :: "plugin list \<Rightarrow> drone list \<Rightarrow> error + controller" where
  "init plugs ds =
     (case register_plugins plugs (map host ds) of
        Inl e \<Rightarrow> Inl e
      | Inr u \<Rightarrow>
          Inr \<lparr>callbacks = {}, delivered = [], plugins = plugs, drones = ds,
               info = Map.empty, plan = empty_plan, added = [], history = []\<rparr>)"

definition register_status_callback :: "controller \<Rightarrow> controller" where
  "register_status_callback c = c\<lparr>callbacks := insert ''status'' (callbacks c)\<rparr>"

text \<open>The call \<^verbatim>\<open>self._callbacks['status'](unit_type, unit_name, unit_status)\<close>.\<close>

definition status :: "string \<Rightarrow> string \<Rightarrow> string \<Rightarrow> controller \<Rightarrow> outcome" where
  "status unit_type unit_name unit_status c =
     (if ''status'' \<in> callbacks c
      then (Inr (), c\<lparr>delivered := delivered c @ [(unit_type, unit_name, unit_status)]\<rparr>)
      else (Inl (KeyError (PStr ''status'')), c))"

subsection \<open>Greenlets and \<^verbatim>\<open>wait_for_runners\<close>\<close>

text \<open>
  A greenlet runs a callable from outside the controller, or the closure
  \<^verbatim>\<open>_install_puppet\<close> of \<^verbatim>\<open>_run_phase\<close>, which hands control back
  after \<^verbatim>\<open>init_host\<close> and after \<^verbatim>\<open>discover\<close>.
\<close>

datatype stage = AtInitHost | AtDiscover | AtConfigure

datatype body = Callable nat ending | Install drone stage | Dead

datatype greenlet = Greenlet task body

fun dead :: "greenlet \<Rightarrow> bool" where
  "dead (Greenlet t Dead) = True"
| "dead (Greenlet t (Callable n e)) = False"
| "dead (Greenlet t (Install d s)) = False"

definition observe :: "observation \<Rightarrow> controller \<Rightarrow> controller" where
  "observe ob c = c\<lparr>history := history c @ [ob]\<rparr>"

text \<open>
  \<^verbatim>\<open>run.switch()\<close>: the greenlet runs until it hands control back, returns or
  raises. An exception that ends a greenlet is raised in its parent, here the caller of
  \<^verbatim>\<open>switch\<close>; \<open>Raises x\<close> stands for such an exception (a greenlet
  that ends with \<^verbatim>\<open>GreenletExit\<close> counts as one that returns).
\<close>

fun switch :: "greenlet \<Rightarrow> controller \<Rightarrow> (error + unit) \<times> greenlet \<times> controller" where
  "switch (Greenlet t (Callable (Suc n) e)) c = (Inr (), Greenlet t (Callable n e), c)"
| "switch (Greenlet t (Callable 0 Returns)) c =
     (Inr (), Greenlet t Dead, observe (Finished t) c)"
| "switch (Greenlet t (Callable 0 (Raises x))) c =
     (Inl (Exc x), Greenlet t Dead, observe (Failed t x) c)"
| "switch (Greenlet t (Install d AtInitHost)) c =
     (case init_host d of
        Raises x \<Rightarrow> (Inl (Exc x), Greenlet t Dead, observe (Failed t x) c)
      | Returns \<Rightarrow> (Inr (), Greenlet t (Install d AtDiscover), c))"
| "switch (Greenlet t (Install d AtDiscover)) c =
     (case discover d of
        Inl x \<Rightarrow> (Inl (Exc x), Greenlet t Dead, observe (Failed t x) c)
      | Inr facts \<Rightarrow>
          (Inr (), Greenlet t (Install d AtConfigure), c\<lparr>info := (info c)(host d \<mapsto> facts)\<rparr>))"
| "switch (Greenlet t (Install d AtConfigure)) c =
     (case configure d of
        Raises x \<Rightarrow> (Inl (Exc x), Greenlet t Dead, observe (Failed t x) c)
      | Returns \<Rightarrow> (Inr (), Greenlet t Dead, observe (Finished t) c))"
| "switch (Greenlet t Dead) c = (Inr (), Greenlet t Dead, c)"

text \<open>The first switch into a new greenlet, the one that passes the arguments.\<close>

definition start :: "greenlet \<Rightarrow> controller \<Rightarrow> (error + unit) \<times> greenlet \<times> controller" where
  "start g c = (case g of Greenlet t b \<Rightarrow> switch g (observe (Started t) c))"

text \<open>
  \<^verbatim>\<open>wait_for_runners(runners)\<close>: one pass over a copy of the set. A runner found
  dead is removed; any other runner is switched to once and stays in the set. The set is
  a list here, visited from its head; the result holds the runners left in the set.
\<close>

fun wait_for_runners ::
  "greenlet list \<Rightarrow> controller \<Rightarrow> (error + unit) \<times> greenlet list \<times> controller" where
  "wait_for_runners [] c = (Inr (), [], c)"
| "wait_for_runners (run # runs) c =
     (if dead run then wait_for_runners runs c
      else (case switch run c of
              (Inl e, run', c') \<Rightarrow> (Inl e, run' # runs, c')
            | (Inr u, run', c') \<Rightarrow>
                (case wait_for_runners runs c' of
                   (r, runs', c'') \<Rightarrow> (r, run' # runs', c''))))"

subsection \<open>The phase runner\<close>

text \<open>
  \<^verbatim>\<open>_iter_phase\<close> reads the attribute \<^verbatim>\<open>'{}_steps'.format(phase)\<close> of each
  plugin; \<^verbatim>\<open>PluginData\<close> has that attribute for four phases.
\<close>

definition phase_steps :: "string \<Rightarrow> plugin \<Rightarrow> error + step list" where
  "phase_steps phase plug =
     (if phase = ''init'' then Inr (init_steps plug)
      else if phase = ''prep'' then Inr (prep_steps plug)
      else if phase = ''plan'' then Inr (plan_steps plug)
      else if phase = ''clean'' then Inr (clean_steps plug)
      else Inl (AttributeError (phase @ ''_steps'')))"

text \<open>\<^verbatim>\<open>self._drones[host]\<close>.\<close>

definition find_drone :: "controller \<Rightarrow> pyval \<Rightarrow> error + drone" where
  "find_drone c h =
     (case find (\<lambda>d. host d = h) (drones c) of
        None \<Rightarrow> Inl (KeyError h)
      | Some d \<Rightarrow> Inr d)"

text \<open>\<^verbatim>\<open>manifests.setdefault(marker, []).append((host, manifest))\<close>.\<close>

fun append_manifest ::
  "pyval \<Rightarrow> pyval \<times> pyval \<Rightarrow> (pyval \<times> (pyval \<times> pyval) list) list
     \<Rightarrow> (pyval \<times> (pyval \<times> pyval) list) list" where
  "append_manifest marker hm [] = [(marker, [hm])]"
| "append_manifest marker hm ((k, hms) # rest) =
     (if k = marker then (k, hms @ [hm]) # rest
      else (k, hms) # append_manifest marker hm rest)"

text \<open>
  \<^verbatim>\<open>dependency.setdefault(marker, set()).update(prereqs or set())\<close> on the
  dictionary \<open>dep\<close>.
\<close>

definition update_dependency ::
  "pyval \<Rightarrow> pyval set option \<Rightarrow> (pyval \<rightharpoonup> pyval set) \<Rightarrow> (pyval \<rightharpoonup> pyval set)" where
  "update_dependency marker prereqs dep =
     dep(marker \<mapsto>
       (case dep marker of None \<Rightarrow> {} | Some old \<Rightarrow> old)
         \<union> (case prereqs of None \<Rightarrow> {} | Some new \<Rightarrow> new))"

text \<open>The body of the loop over the records of a plan step (lines 133 to 140).\<close>

definition add_record :: "plan_record \<Rightarrow> controller \<Rightarrow> outcome" where
  "add_record rec c =
     (case rec of (h, manifest, marker, prereqs) \<Rightarrow>
        (case find_drone c h of
           Inl e \<Rightarrow> (Inl e, c)
         | Inr d \<Rightarrow>
             (case add_manifest d manifest of
                Raises x \<Rightarrow> (Inl (Exc x), c)
              | Returns \<Rightarrow>
                  (let c1 = c\<lparr>added := added c @ [(h, manifest)]\<rparr>;
                       c2 = c1\<lparr>plan := (plan c1)\<lparr>waiting := insert marker (waiting (plan c1))\<rparr>\<rparr>;
                       c3 = c2\<lparr>plan := (plan c2)
                              \<lparr>manifests := append_manifest marker (h, manifest) (manifests (plan c2))\<rparr>\<rparr>
                   in (case dependency (plan c3) of
                         None \<Rightarrow> (Inl (KeyError (PStr ''dependency'')), c3)
                       | Some dep \<Rightarrow>
                           (Inr (), c3\<lparr>plan := (plan c3)
                              \<lparr>dependency := Some (update_dependency marker prereqs dep)\<rparr>\<rparr>))))))"

fun add_records :: "plan_record list \<Rightarrow> controller \<Rightarrow> outcome" where
  "add_records [] c = (Inr (), c)"
| "add_records (rec # recs) c = and_then (add_record rec c) (add_records recs)"

text \<open>A plan step is called once; \<^verbatim>\<open>records or []\<close> turns \<^verbatim>\<open>None\<close> into no record.\<close>

definition plan_step :: "step \<Rightarrow> controller \<Rightarrow> outcome" where
  "plan_step st c =
     (case planned st (info c) of
        Inl x \<Rightarrow> (Inl (Exc x), c)
      | Inr records \<Rightarrow> add_records (case records of None \<Rightarrow> [] | Some recs \<Rightarrow> recs) c)"

text \<open>
  A step of another phase: one greenlet for each drone, switched to as soon as it is
  created (lines 143 to 151), and one call of \<^verbatim>\<open>wait_for_runners\<close>.
\<close>

definition step_greenlet :: "step \<Rightarrow> drone \<Rightarrow> greenlet" where
  "step_greenlet st d =
     Greenlet (StepTask (func_name st) (host d))
       (Callable (fst (per_host st (host d))) (snd (per_host st (host d))))"

fun start_steps ::
  "step \<Rightarrow> drone list \<Rightarrow> greenlet list \<Rightarrow> controller
     \<Rightarrow> (error + unit) \<times> greenlet list \<times> controller" where
  "start_steps st [] runners c = (Inr (), runners, c)"
| "start_steps st (d # ds) runners c =
     (case start (step_greenlet st d) c of
        (Inl e, run, c') \<Rightarrow> (Inl e, runners @ [run], c')
      | (Inr u, run, c') \<Rightarrow> start_steps st ds (runners @ [run]) c')"

definition host_step :: "step \<Rightarrow> controller \<Rightarrow> outcome" where
  "host_step st c =
     (case start_steps st (drones c) [] c of
        (Inl e, runners, c') \<Rightarrow> (Inl e, c')
      | (Inr u, runners, c') \<Rightarrow>
          (case wait_for_runners runners c' of (r, runners', c'') \<Rightarrow> (r, c'')))"

definition run_step :: "string \<Rightarrow> step \<Rightarrow> controller \<Rightarrow> outcome" where
  "run_step phase st c =
     and_then (status ''step'' (func_name st) ''start'' c)
       (\<lambda>c1. and_then (if phase = ''plan'' then plan_step st c1 else host_step st c1)
          (status ''step'' (func_name st) ''end''))"

fun run_steps :: "string \<Rightarrow> step list \<Rightarrow> controller \<Rightarrow> outcome" where
  "run_steps phase [] c = (Inr (), c)"
| "run_steps phase (st # sts) c = and_then (run_step phase st c) (run_steps phase sts)"

fun run_plugins :: "string \<Rightarrow> plugin list \<Rightarrow> controller \<Rightarrow> outcome" where
  "run_plugins phase [] c = (Inr (), c)"
| "run_plugins phase (plug # plugs) c =
     (case phase_steps phase plug of
        Inl e \<Rightarrow> (Inl e, c)
      | Inr sts \<Rightarrow> and_then (run_steps phase sts c) (run_plugins phase plugs))"

text \<open>
  The post-run of a phase (lines 155 to 167): \<^verbatim>\<open>_install_puppet\<close> for each drone
  after \<^verbatim>\<open>init\<close>, \<^verbatim>\<open>make_build\<close> for each drone after \<^verbatim>\<open>plan\<close>; any
  other phase leaves the loop at once.
\<close>

definition post_greenlet :: "string \<Rightarrow> drone \<Rightarrow> greenlet option" where
  "post_greenlet phase d =
     (if phase = ''init'' then Some (Greenlet (InstallTask (host d)) (Install d AtInitHost))
      else if phase = ''plan''
        then Some (Greenlet (BuildTask (host d))
                     (Callable (fst (make_build d)) (snd (make_build d))))
      else None)"

fun start_post ::
  "string \<Rightarrow> drone list \<Rightarrow> greenlet list \<Rightarrow> controller
     \<Rightarrow> (error + unit) \<times> greenlet list \<times> controller" where
  "start_post phase [] runners c = (Inr (), runners, c)"
| "start_post phase (d # ds) runners c =
     (case post_greenlet phase d of
        None \<Rightarrow> (Inr (), runners, c)
      | Some g \<Rightarrow>
          (case start g c of
             (Inl e, run, c') \<Rightarrow> (Inl e, runners @ [run], c')
           | (Inr u, run, c') \<Rightarrow> start_post phase ds (runners @ [run]) c'))"

definition post_run :: "string \<Rightarrow> controller \<Rightarrow> outcome" where
  "post_run phase c =
     (case start_post phase (drones c) [] c of
        (Inl e, runners, c') \<Rightarrow> (Inl e, c')
      | (Inr u, runners, c') \<Rightarrow>
          (case wait_for_runners runners c' of (r, runners', c'') \<Rightarrow> (r, c'')))"

text \<open>\<^verbatim>\<open>Controller._run_phase\<close>.\<close>

definition underscore_run_phase :: "string \<Rightarrow> controller \<Rightarrow> outcome" where
  "underscore_run_phase phase c =
     and_then (status ''phase'' phase ''start'' c)
       (\<lambda>c1. and_then (run_plugins phase (plugins c1) c1)
          (\<lambda>c2. and_then (post_run phase c2) (status ''phase'' phase ''end'')))"

subsection \<open>\<^verbatim>\<open>run_init\<close> and \<^verbatim>\<open>run_cleanup\<close>\<close>

text \<open>
  The attributes of a controller: the ones \<^verbatim>\<open>__init__\<close> sets and the methods of
  the class (the names inherited from \<^verbatim>\<open>object\<close> are left out). Of the methods
  only \<^verbatim>\<open>_run_phase\<close> can be called with a phase and the keywords
  \<^verbatim>\<open>timeout\<close> and \<^verbatim>\<open>debug\<close>.
\<close>

datatype attr = PhaseMethod "string \<Rightarrow> controller \<Rightarrow> outcome" | OtherAttr

definition attributes :: "(string \<times> attr) list" where
  "attributes =
     [(''_callbacks'', OtherAttr), (''_messages'', OtherAttr), (''_tmpdir'', OtherAttr),
      (''_plugin_modules'', OtherAttr), (''_config'', OtherAttr), (''_plugins'', OtherAttr),
      (''_drones'', OtherAttr), (''_info'', OtherAttr), (''_plan'', OtherAttr),
      (''__init__'', OtherAttr), (''_iter_phase'', OtherAttr),
      (''_run_phase'', PhaseMethod underscore_run_phase),
      (''run_init'', OtherAttr), (''run_deployment'', OtherAttr),
      (''run_cleanup'', OtherAttr), (''register_status_callback'', OtherAttr)]"

text \<open>The call \<^verbatim>\<open>self.<a>(phase, ...)\<close>.\<close>

definition call_method :: "string \<Rightarrow> string \<Rightarrow> controller \<Rightarrow> outcome" where
  "call_method a phase c =
     (case map_of attributes a of
        None \<Rightarrow> (Inl (AttributeError a), c)
      | Some OtherAttr \<Rightarrow> (Inl TypeError, c)
      | Some (PhaseMethod m) \<Rightarrow> m phase c)"

definition run_init :: "controller \<Rightarrow> outcome" where
  "run_init c =
     and_then (call_method ''run_phase'' ''init'' c)
       (\<lambda>c1. and_then (call_method ''run_phase'' ''prep'' c1)
          (call_method ''run_phase'' ''plan''))"

fun clean_all :: "drone list \<Rightarrow> controller \<Rightarrow> outcome" where
  "clean_all [] c = (Inr (), c)"
| "clean_all (d # ds) c =
     (case clean d of
        Raises x \<Rightarrow> (Inl (Exc x), observe (Failed (CleanTask (host d)) x) c)
      | Returns \<Rightarrow> clean_all ds (observe (Finished (CleanTask (host d))) c))"

text \<open>The statements of \<^verbatim>\<open>run_cleanup\<close> after the call of \<^verbatim>\<open>self.run_phase\<close>.\<close>

definition cleanup_rest :: "controller \<Rightarrow> outcome" where
  "cleanup_rest c = and_then (clean_all (drones c) c) (status ''phase'' ''cleanuo'' ''end'')"

definition run_cleanup :: "controller \<Rightarrow> outcome" where
  "run_cleanup c =
     and_then (status ''phase'' ''cleanup'' ''start'' c)
       (\<lambda>c1. and_then (call_method ''run_phase'' ''clean'' c1) cleanup_rest)"

subsection \<open>The deployment executor\<close>

text \<open>
  \<open>runners\<close> is the local dictionary of \<^verbatim>\<open>run_deployment\<close>, from a marker to
  the set of its greenlets. The arguments \<^verbatim>\<open>timeout\<close> and \<^verbatim>\<open>debug\<close> are
  handed to \<^verbatim>\<open>deploy\<close> unread; they are part of what \<open>deploy\<close> stands for.
\<close>

type_synonym runners = "pyval \<rightharpoonup> greenlet list"

type_synonym scan = "(error + unit) \<times> runners \<times> controller"

definition deploy_greenlet :: "pyval \<Rightarrow> drone \<Rightarrow> pyval \<Rightarrow> greenlet" where
  "deploy_greenlet marker d manifest =
     Greenlet (DeployTask marker (host d) manifest)
       (Callable (fst (deploy d manifest)) (snd (deploy d manifest)))"

definition add_runner :: "pyval \<Rightarrow> greenlet \<Rightarrow> runners \<Rightarrow> runners" where
  "add_runner marker run R =
     R(marker \<mapsto> (case R marker of None \<Rightarrow> [] | Some runs \<Rightarrow> runs) @ [run])"

text \<open>The loop \<^verbatim>\<open>for host, manifest in manifests\<close> (lines 209 to 212).\<close>

fun start_deploys :: "pyval \<Rightarrow> pyval list \<Rightarrow> runners \<Rightarrow> controller \<Rightarrow> scan" where
  "start_deploys marker [] R c = (Inr (), R, c)"
| "start_deploys marker (x # xs) R c =
     (case unpack2 x of
        Inl e \<Rightarrow> (Inl e, R, c)
      | Inr (h, manifest) \<Rightarrow>
          (case find_drone c h of
             Inl e \<Rightarrow> (Inl e, R, c)
           | Inr d \<Rightarrow>
               (case start (deploy_greenlet marker d manifest) c of
                  (Inl e, run, c') \<Rightarrow> (Inl e, add_runner marker run R, c')
                | (Inr u, run, c') \<Rightarrow> start_deploys marker xs (add_runner marker run R) c')))"

text \<open>Lines 202 to 212: a marker without runners leaves \<open>waiting\<close> and is started.\<close>

definition initiate :: "pyval \<Rightarrow> pyval \<Rightarrow> runners \<Rightarrow> controller \<Rightarrow> scan" where
  "initiate marker mfs R c =
     (case R marker of
        Some runs \<Rightarrow> (Inr (), R, c)
      | None \<Rightarrow>
          (if marker \<notin> waiting (plan c) then (Inl (KeyError marker), R, c)
           else (let c1 = c\<lparr>plan := (plan c)
                            \<lparr>waiting := waiting (plan c) - {marker},
                             in_progress := insert marker (in_progress (plan c))\<rparr>\<rparr>
                 in (case iter mfs of
                       Inl e \<Rightarrow> (Inl e, R, c1)
                     | Inr xs \<Rightarrow> start_deploys marker xs R c1))))"

text \<open>Lines 213 to 217: one pass over the runners of the marker, then the check.\<close>

definition check_end :: "pyval \<Rightarrow> runners \<Rightarrow> controller \<Rightarrow> scan" where
  "check_end marker R c =
     (case R marker of
        None \<Rightarrow> (Inl (KeyError marker), R, c)
      | Some runs \<Rightarrow>
          (case wait_for_runners runs c of
             (Inl e, runs', c') \<Rightarrow> (Inl e, R(marker \<mapsto> runs'), c')
           | (Inr u, runs', c') \<Rightarrow>
               (case runs' of
                  run # rest \<Rightarrow> (Inr (), R(marker \<mapsto> runs'), c')
                | [] \<Rightarrow>
                    (let c1 = c'\<lparr>plan := (plan c')
                               \<lparr>finished := insert marker (finished (plan c'))\<rparr>\<rparr>
                     in if marker \<in> in_progress (plan c1)
                        then (Inr (), R(marker \<mapsto> []),
                              c1\<lparr>plan := (plan c1)
                                \<lparr>in_progress := in_progress (plan c1) - {marker}\<rparr>\<rparr>)
                        else (Inl (KeyError marker), R(marker \<mapsto> []), c1)))))"

text \<open>
  The body of \<^verbatim>\<open>for marker, manifests in self._plan['manifests']\<close>: the loop
  variable is a key of the dictionary, and the tuple assignment unpacks that key.
\<close>

definition deploy_marker :: "pyval \<Rightarrow> runners \<Rightarrow> controller \<Rightarrow> scan" where
  "deploy_marker key R c =
     (case unpack2 key of
        Inl e \<Rightarrow> (Inl e, R, c)
      | Inr (marker, mfs) \<Rightarrow>
          (if marker \<in> finished (plan c) then (Inr (), R, c)
           else (case dependency (plan c) of
                   None \<Rightarrow> (Inl (KeyError (PStr ''dependency'')), R, c)
                 | Some dep \<Rightarrow>
                     (case dep marker of
                        None \<Rightarrow> (Inl (KeyError marker), R, c)
                      | Some prereqs \<Rightarrow>
                          (if prereqs - finished (plan c) \<noteq> {} then (Inr (), R, c)
                           else (case initiate marker mfs R c of
                                   (Inl e, R1, c1) \<Rightarrow> (Inl e, R1, c1)
                                 | (Inr u, R1, c1) \<Rightarrow> check_end marker R1 c1))))))"

fun scan_markers :: "pyval list \<Rightarrow> runners \<Rightarrow> controller \<Rightarrow> scan" where
  "scan_markers [] R c = (Inr (), R, c)"
| "scan_markers (key # keys) R c =
     (case deploy_marker key R c of
        (Inl e, R1, c1) \<Rightarrow> (Inl e, R1, c1)
      | (Inr u, R1, c1) \<Rightarrow> scan_markers keys R1 c1)"

text \<open>
  The loop \<^verbatim>\<open>while self._plan['waiting'] or self._plan['in-progress']\<close>. Nothing
  bounds the number of its passes, so the result is optional: \<open>None\<close> when the loop
  never ends.
\<close>

partial_function (option) deployment_loop :: "runners \<Rightarrow> controller \<Rightarrow> outcome option" where
  "deployment_loop R c =
     (if waiting (plan c) \<noteq> {} \<or> in_progress (plan c) \<noteq> {}
      then (case scan_markers (map fst (manifests (plan c))) R c of
              (Inl e, R1, c1) \<Rightarrow> Some (Inl e, c1)
            | (Inr u, R1, c1) \<Rightarrow> deployment_loop R1 c1)
      else Some (Inr (), c))"

definition run_deployment :: "controller \<Rightarrow> outcome option" where
  "run_deployment c =
     (case status ''phase'' ''deployment'' ''start'' c of
        (Inl e, c1) \<Rightarrow> Some (Inl e, c1)
      | (Inr u, c1) \<Rightarrow>
          (case deployment_loop Map.empty c1 of
             None \<Rightarrow> None
           | Some (Inl e, c2) \<Rightarrow> Some (Inl e, c2)
           | Some (Inr u, c2) \<Rightarrow> Some (status ''phase'' ''deployment'' ''end'' c2)))"

subsection \<open>Predicates on controllers\<close>

text \<open>
  \<open>frame c c'\<close>: the controller \<open>c'\<close> differs from \<open>c\<close> at most in the host
  information and in the history. This is all a greenlet can change.
\<close>

definition frame :: "controller \<Rightarrow> controller \<Rightarrow> bool" where
  "frame c c' \<longleftrightarrow> c' = c\<lparr>info := info c', history := history c'\<rparr>"

text \<open>
  A plan that the plan phase has filled and no deployment has touched: every marker of
  \<open>manifests\<close> waits.
\<close>

definition planning :: "plan \<Rightarrow> bool" where
  "planning p \<longleftrightarrow>
     in_progress p = {} \<and> finished p = {} \<and> waiting p = fst ` set (manifests p)"

text \<open>
  The controllers that the methods of the class can produce: the result of
  \<^verbatim>\<open>__init__\<close>, the controller any method leaves behind, whether it returns
  or raises, and the controller after each record of a plan step.
\<close>

inductive reachable :: "controller \<Rightarrow> bool" where
  reachable_init: "init plugs ds = Inr c \<Longrightarrow> reachable c"
| reachable_register: "reachable c \<Longrightarrow> reachable (register_status_callback c)"
| reachable_run_phase: "reachable c \<Longrightarrow> reachable (snd (underscore_run_phase phase c))"
| reachable_add_record: "reachable c \<Longrightarrow> reachable (snd (add_record rec c))"
| reachable_run_init: "reachable c \<Longrightarrow> reachable (snd (run_init c))"
| reachable_run_deployment:
    "reachable c \<Longrightarrow> run_deployment c = Some (r, c') \<Longrightarrow> reachable c'"
| reachable_run_cleanup: "reachable c \<Longrightarrow> reachable (snd (run_cleanup c))"

subsection \<open>Example installations\<close>

text \<open>A drone whose methods all return at once.\<close>

definition quiet_drone :: "pyval \<Rightarrow> drone" where
  "quiet_drone h =
     \<lparr>host = h, init_host = Returns, discover = Inr PNone, configure = Returns,
      add_manifest = (\<lambda>m. Returns), make_build = (0, Returns),
      deploy = (\<lambda>m. (0, Returns)), clean = Returns\<rparr>"

text \<open>
  One plugin with one plan step that returns a record for \<^verbatim>\<open>markerA\<close> on
  \<^verbatim>\<open>host1\<close> and a record for \<^verbatim>\<open>markerB\<close> on \<^verbatim>\<open>host2\<close>, the second
  with \<^verbatim>\<open>markerA\<close> as its prerequisite.
\<close>

definition scenario_step :: step where
  "scenario_step =
     \<lparr>func_name = ''plan_sql'', per_host = (\<lambda>h. (0, Returns)),
      planned = (\<lambda>i. Inr (Some
        [(PStr ''host1'', PStr ''m1'', PStr ''markerA'', None),
         (PStr ''host2'', PStr ''m2'', PStr ''markerB'', Some {PStr ''markerA''})]))\<rparr>"

definition scenario_plugin :: plugin where
  "scenario_plugin =
     \<lparr>name = ''sql'', modules = [], resources = [], init_steps = [], prep_steps = [],
      plan_steps = [scenario_step], clean_steps = []\<rparr>"

text \<open>The controller as \<^verbatim>\<open>__init__\<close> leaves it, then with a status callback.\<close>

definition fresh :: controller where
  "fresh =
     \<lparr>callbacks = {}, delivered = [], plugins = [scenario_plugin],
      drones = [quiet_drone (PStr ''host1''), quiet_drone (PStr ''host2'')],
      info = Map.empty, plan = empty_plan, added = [], history = []\<rparr>"

definition scenario :: controller where
  "scenario = register_status_callback fresh"

text \<open>The controller after \<^verbatim>\<open>_run_phase('plan')\<close>.\<close>

definition planned_once :: controller where
  "planned_once = snd (underscore_run_phase ''plan'' scenario)"

text \<open>
  A step that hands control back twice before it returns, as \<^verbatim>\<open>_install_puppet\<close>
  does, and a step that returns at once; an installation with one host that runs the
  second in its \<^verbatim>\<open>init\<close> phase and both in its \<^verbatim>\<open>prep\<close> phase.
\<close>

definition slow_step :: step where
  "slow_step =
     \<lparr>func_name = ''slow'', per_host = (\<lambda>h. (2, Returns)), planned = (\<lambda>i. Inr None)\<rparr>"

definition fast_step :: step where
  "fast_step =
     \<lparr>func_name = ''fast'', per_host = (\<lambda>h. (0, Returns)), planned = (\<lambda>i. Inr None)\<rparr>"

definition two_steps :: controller where
  "two_steps =
     \<lparr>callbacks = {''status''}, delivered = [],
      plugins = [\<lparr>name = ''p'', modules = [], resources = [], init_steps = [fast_step],
                  prep_steps = [slow_step, fast_step], plan_steps = [], clean_steps = []\<rparr>],
      drones = [quiet_drone (PStr ''host1'')],
      info = Map.empty, plan = empty_plan, added = [], history = []\<rparr>"

text \<open>
  An installation with one host whose \<^verbatim>\<open>init\<close> phase runs the step
  \<^verbatim>\<open>slow\<close> alone, as \<^verbatim>\<open>__init__\<close> and
  \<^verbatim>\<open>register_status_callback\<close> leave it.
\<close>

definition lazy_plugin :: plugin where
  "lazy_plugin =
     \<lparr>name = ''p'', modules = [], resources = [], init_steps = [slow_step], prep_steps = [],
      plan_steps = [], clean_steps = []\<rparr>"

definition lazy :: controller where
  "lazy =
     \<lparr>callbacks = {''status''}, delivered = [], plugins = [lazy_plugin],
      drones = [quiet_drone (PStr ''host1'')],
      info = Map.empty, plan = empty_plan, added = [], history = []\<rparr>"

text \<open>
  A plugin whose plan step returns a record for \<^verbatim>\<open>A\<close> on \<^verbatim>\<open>host1\<close>
  and a record for \<^verbatim>\<open>B\<close> on \<^verbatim>\<open>host2\<close>, each marker with the other
  as its prerequisite; the controller as \<^verbatim>\<open>__init__\<close> leaves it, and the
  controller after \<^verbatim>\<open>register_status_callback\<close> and
  \<^verbatim>\<open>_run_phase('plan')\<close>.
\<close>

definition cyclic_step :: step where
  "cyclic_step =
     \<lparr>func_name = ''plan_ab'', per_host = (\<lambda>h. (0, Returns)),
      planned = (\<lambda>i. Inr (Some
        [(PStr ''host1'', PStr ''m1'', PStr ''A'', Some {PStr ''B''}),
         (PStr ''host2'', PStr ''m2'', PStr ''B'', Some {PStr ''A''})]))\<rparr>"

definition cyclic_plugin :: plugin where
  "cyclic_plugin =
     \<lparr>name = ''ab'', modules = [], resources = [], init_steps = [], prep_steps = [],
      plan_steps = [cyclic_step], clean_steps = []\<rparr>"

definition cyclic_fresh :: controller where
  "cyclic_fresh =
     \<lparr>callbacks = {}, delivered = [], plugins = [cyclic_plugin],
      drones = [quiet_drone (PStr ''host1''), quiet_drone (PStr ''host2'')],
      info = Map.empty, plan = empty_plan, added = [], history = []\<rparr>"

definition cyclic_site :: controller where
  "cyclic_site = snd (underscore_run_phase ''plan'' (register_status_callback cyclic_fresh))"



subsection \<open>Observations of a deployment\<close>

text \<open>
  The task of a greenlet, the marker a deploy task belongs to, and the task an
  observation is about. \<open>about m ob\<close>: the observation concerns a deploy task of
  the marker \<open>m\<close>; \<open>launches m ob\<close>: it is the start of one.
\<close>

fun task_of :: "greenlet \<Rightarrow> task" where
  "task_of (Greenlet t b) = t"

fun marker_of :: "task \<Rightarrow> pyval option" where
  "marker_of (DeployTask m h mf) = Some m"
| "marker_of (StepTask n h) = None"
| "marker_of (InstallTask h) = None"
| "marker_of (BuildTask h) = None"
| "marker_of (CleanTask h) = None"

fun subject :: "observation \<Rightarrow> task" where
  "subject (Started t) = t"
| "subject (Finished t) = t"
| "subject (Failed t x) = t"

definition about :: "pyval \<Rightarrow> observation \<Rightarrow> bool" where
  "about m ob \<longleftrightarrow> marker_of (subject ob) = Some m"

fun failure :: "observation \<Rightarrow> bool" where
  "failure (Failed t x) = True"
| "failure (Started t) = False"
| "failure (Finished t) = False"

fun launches :: "pyval \<Rightarrow> observation \<Rightarrow> bool" where
  "launches m (Started t) = (marker_of t = Some m)"
| "launches m (Finished t) = False"
| "launches m (Failed t x) = False"

text \<open>
  What a call has added to the history.
\<close>

definition observed :: "controller \<Rightarrow> controller \<Rightarrow> observation list" where
  "observed c c' = drop (length (history c)) (history c')"

text \<open>
  The prerequisites the plan holds for a marker: the entry of the marker in the
  dictionary under \<^verbatim>\<open>'dependency'\<close>, nothing when there is none.
\<close>

definition prerequisites :: "plan \<Rightarrow> pyval \<Rightarrow> pyval set" where
  "prerequisites p m =
     (case dependency p of
        None \<Rightarrow> {}
      | Some dep \<Rightarrow> (case dep m of None \<Rightarrow> {} | Some prereqs \<Rightarrow> prereqs))"

text \<open>
  \<open>in_order p evs\<close>: whenever a deploy task of a marker \<open>B\<close> starts, every
  deploy task of each prerequisite \<open>A\<close> of \<open>B\<close> that has started has also
  finished, and nothing about \<open>A\<close> is observed afterwards.
\<close>

definition in_order :: "plan \<Rightarrow> observation list \<Rightarrow> bool" where
  "in_order p evs \<longleftrightarrow>
     (\<forall>pre ob post B A.
        evs = pre @ ob # post \<longrightarrow> launches B ob \<longrightarrow> A \<in> prerequisites p B \<longrightarrow>
          (\<forall>t. marker_of t = Some A \<longrightarrow>
                 count_list pre (Started t) = count_list pre (Finished t))
          \<and> (\<forall>ob'\<in>set post. \<not> about A ob'))"

subsection \<open>The plan during a deployment\<close>



text \<open>
  The three sets hold the keys of \<open>manifests\<close> and are pairwise disjoint.
\<close>

definition partitioned :: "plan \<Rightarrow> bool" where
  "partitioned p \<longleftrightarrow>
     waiting p \<union> in_progress p \<union> finished p = fst ` set (manifests p)
     \<and> waiting p \<inter> in_progress p = {}
     \<and> waiting p \<inter> finished p = {}
     \<and> in_progress p \<inter> finished p = {}"


text \<open>
  \<open>blocked p key\<close>: the loop body skips the key, at line 191 or at line 200.
  \<open>stuck p S\<close>: none of the markers in \<open>S\<close> is finished, and each of them that
  has prerequisites has one in \<open>S\<close>: markers that wait for each other, or for a
  marker that is never deployed.
\<close>

definition blocked :: "plan \<Rightarrow> pyval \<Rightarrow> bool" where
  "blocked p key \<longleftrightarrow>
     (case unpack2 key of
        Inl e \<Rightarrow> False
      | Inr (m, mfs) \<Rightarrow>
          m \<in> finished p \<or>
          (case dependency p of
             None \<Rightarrow> False
           | Some dep \<Rightarrow>
               (case dep m of None \<Rightarrow> False | Some prereqs \<Rightarrow> prereqs - finished p \<noteq> {})))"

definition stuck :: "plan \<Rightarrow> pyval set \<Rightarrow> bool" where
  "stuck p S \<longleftrightarrow>
     S \<inter> finished p = {}
     \<and> (\<forall>m\<in>S. \<forall>dep prereqs.
           dependency p = Some dep \<longrightarrow> dep m = Some prereqs \<longrightarrow> prereqs \<inter> S \<noteq> {})"

subsection \<open>The first passes of the deployment loop\<close>

text \<open>
  \<open>deployment_passes n R c\<close>: the loop of \<^verbatim>\<open>run_deployment\<close> cut off
  after \<open>n\<close> passes. It gives the result, the runners and the controller at the
  point where the loop has ended, where a pass has raised, or where the \<open>n\<close>-th
  pass has ended, whichever comes first. \<open>deployment_prefix n c\<close> is the call of
  \<^verbatim>\<open>run_deployment\<close> up to that point. These are the points at which a call
  that never ends can be observed; a call that ends is the call up to one of them, and a
  pass that raises ends the call (lemmas \<open>run_deployment_prefix\<close> and
  \<open>deployment_prefix_raise\<close>).
\<close>

fun deployment_passes :: "nat \<Rightarrow> runners \<Rightarrow> controller \<Rightarrow> scan" where
  "deployment_passes 0 R c = (Inr (), R, c)"
| "deployment_passes (Suc n) R c =
     (if waiting (plan c) \<noteq> {} \<or> in_progress (plan c) \<noteq> {}
      then (case scan_markers (map fst (manifests (plan c))) R c of
              (Inl e, R1, c1) \<Rightarrow> (Inl e, R1, c1)
            | (Inr u, R1, c1) \<Rightarrow> deployment_passes n R1 c1)
      else (Inr (), R, c))"

definition deployment_prefix :: "nat \<Rightarrow> controller \<Rightarrow> scan" where
  "deployment_prefix n c =
     (case status ''phase'' ''deployment'' ''start'' c of
        (Inl e, c1) \<Rightarrow> (Inl e, Map.empty, c1)
      | (Inr u, c1) \<Rightarrow> deployment_passes n Map.empty c1)"

subsection \<open>Invariants of the deployment loop\<close>

text \<open>
  The runners tracked for a marker, how many of them run a given task and are alive,
  and the invariant that the runners filed under a marker run deploy tasks of that
  marker.
\<close>

definition tracked :: "runners \<Rightarrow> pyval \<Rightarrow> greenlet list" where
  "tracked R m = (case R m of None \<Rightarrow> [] | Some runs \<Rightarrow> runs)"

definition alive :: "greenlet list \<Rightarrow> task \<Rightarrow> nat" where
  "alive runs t = length (filter (\<lambda>g. \<not> dead g \<and> task_of g = t) runs)"

definition wf_runners :: "runners \<Rightarrow> bool" where
  "wf_runners R \<longleftrightarrow> (\<forall>m g. g \<in> set (tracked R m) \<longrightarrow> marker_of (task_of g) = Some m)"

text \<open>
  \<open>segment m r runs runs' evs\<close>: the observations \<open>evs\<close> made while the
  runners of \<open>m\<close> went from \<open>runs\<close> to \<open>runs'\<close> with result
  \<open>r\<close>. They are about \<open>m\<close>; without an exception none of them is a failure
  and starts and finishes are balanced against the runners alive; a failure is the
  exception raised.
\<close>

definition segment ::
  "pyval \<Rightarrow> error + unit \<Rightarrow> greenlet list \<Rightarrow> greenlet list \<Rightarrow> observation list \<Rightarrow> bool" where
  "segment m r runs runs' evs \<longleftrightarrow>
     (\<forall>ob\<in>set evs. about m ob)
     \<and> (\<forall>g\<in>set runs'. marker_of (task_of g) = Some m)
     \<and> (r = Inr () \<longrightarrow>
          (\<forall>ob\<in>set evs. \<not> failure ob)
          \<and> (\<forall>t. count_list evs (Started t) + alive runs t =
                    count_list evs (Finished t) + alive runs' t))
     \<and> (\<forall>t x. Failed t x \<in> set evs \<longrightarrow> r = Inl (Exc x))"

text \<open>
  One pass of the loop body either changes nothing (\<open>idle\<close>) or works on one
  ready marker (\<open>active\<close>).
\<close>

definition idle :: "runners \<Rightarrow> controller \<Rightarrow> runners \<Rightarrow> controller \<Rightarrow> observation list \<Rightarrow> bool" where
  "idle R c R' c' evs \<longleftrightarrow> evs = [] \<and> R' = R \<and> plan c' = plan c"

definition active ::
  "pyval \<Rightarrow> error + unit \<Rightarrow> runners \<Rightarrow> controller \<Rightarrow> runners \<Rightarrow> controller
     \<Rightarrow> observation list \<Rightarrow> bool" where
  "active m r R c R' c' evs \<longleftrightarrow>
     m \<notin> finished (plan c)
     \<and> (\<exists>dep prereqs. dependency (plan c) = Some dep \<and> dep m = Some prereqs
           \<and> prereqs \<subseteq> finished (plan c))
     \<and> (\<forall>m'. m' \<noteq> m \<longrightarrow> R' m' = R m')
     \<and> segment m r (tracked R m) (tracked R' m) evs
     \<and> (finished (plan c') = finished (plan c)
        \<or> finished (plan c') = insert m (finished (plan c)) \<and> R' m = Some []
           \<and> (\<forall>ob\<in>set evs. \<not> failure ob))"

text \<open>
  \<open>sound c0 r c\<close> relates the controller \<open>c0\<close> at the start of a deployment
  to a later controller \<open>c\<close> and the result \<open>r\<close> so far; \<open>steady c0 R c\<close>
  is the part that holds while no exception has been raised. \<open>held S p p'\<close>:
  the markers of \<open>S\<close> are stuck in \<open>p'\<close> and are in \<open>waiting\<close> and
  \<open>in_progress\<close> as they were in \<open>p\<close>.
\<close>

definition sound :: "controller \<Rightarrow> error + unit \<Rightarrow> controller \<Rightarrow> bool" where
  "sound c0 r c \<longleftrightarrow>
     history c = history c0 @ observed c0 c
     \<and> dependency (plan c) = dependency (plan c0)
     \<and> finished (plan c0) \<subseteq> finished (plan c)
     \<and> (\<forall>B A. (\<exists>ob\<in>set (observed c0 c). launches B ob) \<and> A \<in> prerequisites (plan c0) B
            \<longrightarrow> A \<in> finished (plan c))
     \<and> in_order (plan c0) (observed c0 c)
     \<and> (\<forall>m\<in>finished (plan c0). \<forall>ob\<in>set (observed c0 c). \<not> about m ob)
     \<and> (\<forall>t x. Failed t x \<in> set (observed c0 c) \<longrightarrow>
            r = Inl (Exc x) \<and> (\<forall>m. marker_of t = Some m \<longrightarrow> m \<notin> finished (plan c)))"

definition steady :: "controller \<Rightarrow> runners \<Rightarrow> controller \<Rightarrow> bool" where
  "steady c0 R c \<longleftrightarrow>
     wf_runners R
     \<and> (\<forall>ob\<in>set (observed c0 c). \<not> failure ob)
     \<and> (\<forall>m t. marker_of t = Some m \<longrightarrow>
            count_list (observed c0 c) (Started t) =
              count_list (observed c0 c) (Finished t) + alive (tracked R m) t)
     \<and> (\<forall>m. m \<in> finished (plan c) \<longrightarrow> m \<notin> finished (plan c0) \<longrightarrow> R m = Some [])"


subsection \<open>Example plans with the key \<^verbatim>\<open>'dependency'\<close>\<close>

text \<open>
  The loop body of \<^verbatim>\<open>run_deployment\<close> gets past its first lines only if the
  dictionary of the plan has the key \<^verbatim>\<open>'dependency'\<close> and the keys of
  \<open>manifests\<close> are pairs of a marker and a sequence of pairs of host and manifest.
  \<open>paired dep s\<close> is a controller with such a plan for the markers \<^verbatim>\<open>A\<close> on
  \<^verbatim>\<open>host1\<close> and \<^verbatim>\<open>B\<close> on \<^verbatim>\<open>host2\<close>, with the prerequisites \<open>dep\<close>
  and with \<open>s\<close> as what \<^verbatim>\<open>deploy\<close> does on \<^verbatim>\<open>host1\<close>.
\<close>

definition key_of :: "pyval \<Rightarrow> (pyval \<times> pyval) list \<Rightarrow> pyval" where
  "key_of marker hms = PTuple [marker, PTuple (map (\<lambda>(h, mf). PTuple [h, mf]) hms)]"

definition paired_plan :: "(pyval \<rightharpoonup> pyval set) \<Rightarrow> plan" where
  "paired_plan dep =
     \<lparr>manifests =
        [(key_of (PStr ''A'') [(PStr ''host1'', PStr ''m1'')], []),
         (key_of (PStr ''B'') [(PStr ''host2'', PStr ''m2'')], [])],
      dependecy = Map.empty, dependency = Some dep,
      waiting = {PStr ''A'', PStr ''B''}, in_progress = {}, finished = {}\<rparr>"

definition paired :: "(pyval \<rightharpoonup> pyval set) \<Rightarrow> script \<Rightarrow> controller" where
  "paired dep s =
     \<lparr>callbacks = {''status''}, delivered = [], plugins = [],
      drones = [(quiet_drone (PStr ''host1''))\<lparr>deploy := (\<lambda>mf. s)\<rparr>, quiet_drone (PStr ''host2'')],
      info = Map.empty, plan = paired_plan dep, added = [], history = []\<rparr>"

text \<open>
  B requires A; A and B require each other; A requires a marker that is not in the
  plan.
\<close>

definition chain :: "pyval \<rightharpoonup> pyval set" where
  "chain = [PStr ''A'' \<mapsto> {}, PStr ''B'' \<mapsto> {PStr ''A''}]"


definition missing :: "pyval \<rightharpoonup> pyval set" where
  "missing = [PStr ''A'' \<mapsto> {PStr ''Z''}, PStr ''B'' \<mapsto> {PStr ''A''}]"

definition task_A :: task where
  "task_A = DeployTask (PStr ''A'') (PStr ''host1'') (PStr ''m1'')"




text \<open>
  The deployment of the chain when \<^verbatim>\<open>deploy\<close> on \<^verbatim>\<open>host1\<close> raises.
\<close>

definition boom_site :: controller where
  "boom_site = paired chain (0, Raises ''boom'')"

definition boom_done :: controller where
  "boom_done =
     boom_site
       \<lparr>delivered := [(''phase'', ''deployment'', ''start'')],
        plan := (paired_plan chain)\<lparr>waiting := {PStr ''B''}, in_progress := {PStr ''A''}\<rparr>,
        history := [Started task_A, Failed task_A ''boom'']\<rparr>"





section \<open>Properties\<close>

subsection \<open>What a greenlet can change\<close>

lemma frame_refl: "frame c c"
  by (simp add: frame_def)

lemma frame_trans: "frame c c1 \<Longrightarrow> frame c1 c2 \<Longrightarrow> frame c c2"
  unfolding frame_def by (cases c, cases c1, cases c2) simp

lemma frameD:
  assumes "frame c c'"
  shows "plan c' = plan c" "callbacks c' = callbacks c" "delivered c' = delivered c"
    "plugins c' = plugins c" "drones c' = drones c" "added c' = added c"
  using assms unfolding frame_def by (cases c, cases c', simp)+

lemma frame_observe: "frame c (observe ob c)"
  by (simp add: frame_def observe_def)

lemma frame_info: "frame c (c\<lparr>info := i\<rparr>)"
  by (simp add: frame_def)

lemma switch_frame: "switch g c = (r, g', c') \<Longrightarrow> frame c c'"
  by (induct g c rule: switch.induct)
     (auto simp: frame_observe frame_info frame_refl split: ending.splits sum.splits)

lemma start_frame: "start g c = (r, g', c') \<Longrightarrow> frame c c'"
  unfolding start_def
  by (cases g) (auto dest!: switch_frame intro: frame_trans [OF frame_observe])

lemma wait_for_runners_frame: "wait_for_runners runs c = (r, runs', c') \<Longrightarrow> frame c c'"
proof (induct runs arbitrary: c r runs' c')
  case Nil
  then show ?case by (simp add: frame_refl)
next
  case (Cons run runs)
  show ?case
  proof (cases "dead run")
    case True
    with Cons show ?thesis by simp
  next
    case False
    obtain r1 run1 c1 where sw: "switch run c = (r1, run1, c1)"
      by (cases "switch run c") auto
    have f1: "frame c c1" using sw by (rule switch_frame)
    show ?thesis
    proof (cases r1)
      case (Inl e)
      with Cons.prems False sw f1 show ?thesis by simp
    next
      case (Inr u)
      obtain r2 runs2 c2 where w: "wait_for_runners runs c1 = (r2, runs2, c2)"
        by (cases "wait_for_runners runs c1") auto
      from Cons.hyps [OF w] have "frame c1 c2" .
      with f1 have "frame c c2" by (rule frame_trans)
      with Cons.prems False sw Inr w show ?thesis by simp
    qed
  qed
qed

lemma start_steps_frame: "start_steps st ds runs c = (r, runs', c') \<Longrightarrow> frame c c'"
proof (induct ds arbitrary: runs c)
  case Nil
  then show ?case by (simp add: frame_refl)
next
  case (Cons d ds)
  obtain r1 run1 c1 where s: "start (step_greenlet st d) c = (r1, run1, c1)"
    by (cases "start (step_greenlet st d) c") auto
  have f1: "frame c c1" using s by (rule start_frame)
  show ?case
  proof (cases r1)
    case (Inl e)
    with Cons.prems s f1 show ?thesis by simp
  next
    case (Inr u)
    with Cons.prems s have "start_steps st ds (runs @ [run1]) c1 = (r, runs', c')" by simp
    then have "frame c1 c'" by (rule Cons.hyps)
    with f1 show ?thesis by (rule frame_trans)
  qed
qed

lemma host_step_frame: "frame c (snd (host_step st c))"
proof -
  obtain r1 runs1 c1 where s: "start_steps st (drones c) [] c = (r1, runs1, c1)"
    by (cases "start_steps st (drones c) [] c") auto
  have f1: "frame c c1" using s by (rule start_steps_frame)
  obtain r2 runs2 c2 where w: "wait_for_runners runs1 c1 = (r2, runs2, c2)"
    by (cases "wait_for_runners runs1 c1") auto
  have "frame c1 c2" using w by (rule wait_for_runners_frame)
  with f1 have "frame c c2" by (rule frame_trans)
  with f1 s w show ?thesis by (cases r1) (simp_all add: host_step_def)
qed

lemma start_post_frame: "start_post phase ds runs c = (r, runs', c') \<Longrightarrow> frame c c'"
proof (induct ds arbitrary: runs c)
  case Nil
  then show ?case by (simp add: frame_refl)
next
  case (Cons d ds)
  show ?case
  proof (cases "post_greenlet phase d")
    case None
    with Cons.prems show ?thesis by (simp add: frame_refl)
  next
    case (Some g)
    obtain r1 run1 c1 where s: "start g c = (r1, run1, c1)"
      by (cases "start g c") auto
    have f1: "frame c c1" using s by (rule start_frame)
    show ?thesis
    proof (cases r1)
      case (Inl e)
      with Cons.prems Some s f1 show ?thesis by simp
    next
      case (Inr u)
      with Cons.prems Some s have "start_post phase ds (runs @ [run1]) c1 = (r, runs', c')"
        by simp
      then have "frame c1 c'" by (rule Cons.hyps)
      with f1 show ?thesis by (rule frame_trans)
    qed
  qed
qed

lemma post_run_frame: "frame c (snd (post_run phase c))"
proof -
  obtain r1 runs1 c1 where s: "start_post phase (drones c) [] c = (r1, runs1, c1)"
    by (cases "start_post phase (drones c) [] c") auto
  have f1: "frame c c1" using s by (rule start_post_frame)
  obtain r2 runs2 c2 where w: "wait_for_runners runs1 c1 = (r2, runs2, c2)"
    by (cases "wait_for_runners runs1 c1") auto
  have "frame c1 c2" using w by (rule wait_for_runners_frame)
  with f1 have "frame c c2" by (rule frame_trans)
  with f1 s w show ?thesis by (cases r1) (simp_all add: post_run_def)
qed

lemma status_plan: "plan (snd (status ut un us c)) = plan c"
  by (simp add: status_def)

lemma fst_set_append_manifest:
  "fst ` set (append_manifest marker hm ms) = insert marker (fst ` set ms)"
  by (induct marker hm ms rule: append_manifest.induct) (simp_all add: insert_commute)

lemma add_record_planning: "planning (plan c) \<Longrightarrow> planning (plan (snd (add_record rec c)))"
  by (cases rec)
     (auto simp: add_record_def planning_def Let_def fst_set_append_manifest
           split: sum.splits ending.splits option.splits)

lemma add_record_keyless:
  "dependency (plan c) = None \<Longrightarrow> dependency (plan (snd (add_record rec c))) = None"
  by (cases rec)
     (auto simp: add_record_def Let_def split: sum.splits ending.splits option.splits)

lemma and_then_snd:
  assumes "\<And>c. Q (plan c) \<Longrightarrow> Q (plan (snd (f c)))" and "Q (plan (snd r))"
  shows "Q (plan (snd (and_then r f)))"
  using assms by (cases r) (auto simp: and_then_def split: sum.splits)

lemma add_records_stable:
  assumes "\<And>rec c. Q (plan c) \<Longrightarrow> Q (plan (snd (add_record rec c)))"
  shows "Q (plan c) \<Longrightarrow> Q (plan (snd (add_records recs c)))"
proof (induct recs arbitrary: c)
  case Nil
  then show ?case by simp
next
  case (Cons rec recs)
  show ?case
    unfolding add_records.simps
    by (rule and_then_snd) (auto intro: Cons assms)
qed

lemma run_step_stable:
  assumes "\<And>rec c. Q (plan c) \<Longrightarrow> Q (plan (snd (add_record rec c)))"
  shows "Q (plan c) \<Longrightarrow> Q (plan (snd (run_step phase st c)))"
proof -
  assume q: "Q (plan c)"
  have a: "\<And>c. Q (plan c) \<Longrightarrow> Q (plan (snd (plan_step st c)))"
    by (auto simp: plan_step_def intro: add_records_stable assms split: sum.splits)
  have b: "\<And>c. Q (plan c) \<Longrightarrow> Q (plan (snd (host_step st c)))"
    using host_step_frame [THEN frameD(1)] by simp
  show ?thesis
    unfolding run_step_def
    apply (rule and_then_snd)
     apply (rule and_then_snd)
      apply (simp add: status_plan)
     apply (simp add: a b)
    apply (simp add: status_plan q)
    done
qed

lemma run_steps_stable:
  assumes "\<And>rec c. Q (plan c) \<Longrightarrow> Q (plan (snd (add_record rec c)))"
  shows "Q (plan c) \<Longrightarrow> Q (plan (snd (run_steps phase sts c)))"
proof (induct sts arbitrary: c)
  case Nil
  then show ?case by simp
next
  case (Cons st sts)
  show ?case
    unfolding run_steps.simps
    by (rule and_then_snd) (auto intro: Cons run_step_stable assms)
qed

lemma run_plugins_stable:
  assumes "\<And>rec c. Q (plan c) \<Longrightarrow> Q (plan (snd (add_record rec c)))"
  shows "Q (plan c) \<Longrightarrow> Q (plan (snd (run_plugins phase plugs c)))"
proof (induct plugs arbitrary: c)
  case Nil
  then show ?case by simp
next
  case (Cons plug plugs)
  show ?case
  proof (cases "phase_steps phase plug")
    case (Inl e)
    with Cons.prems show ?thesis by simp
  next
    case (Inr sts)
    have "Q (plan (snd (and_then (run_steps phase sts c) (run_plugins phase plugs))))"
      by (rule and_then_snd) (auto intro: Cons run_steps_stable assms)
    with Inr show ?thesis by simp
  qed
qed

lemma run_phase_stable:
  assumes "\<And>rec c. Q (plan c) \<Longrightarrow> Q (plan (snd (add_record rec c)))"
  shows "Q (plan c) \<Longrightarrow> Q (plan (snd (underscore_run_phase phase c)))"
proof -
  assume q: "Q (plan c)"
  have b: "\<And>c. Q (plan c) \<Longrightarrow> Q (plan (snd (post_run phase c)))"
    using post_run_frame [THEN frameD(1)] by simp
  have p: "\<And>c. Q (plan c) \<Longrightarrow> Q (plan (snd (run_plugins phase (plugins c) c)))"
    by (rule run_plugins_stable) (auto intro: assms)
  have t: "\<And>c. Q (plan c) \<Longrightarrow>
    Q (plan (snd (and_then (post_run phase c) (status ''phase'' phase ''end''))))"
    by (rule and_then_snd) (simp_all add: status_plan b)
  have u: "\<And>c. Q (plan c) \<Longrightarrow>
    Q (plan (snd (and_then (run_plugins phase (plugins c) c)
      (\<lambda>c2. and_then (post_run phase c2) (status ''phase'' phase ''end'')))))"
    by (rule and_then_snd) (simp_all add: t p)
  show ?thesis
    unfolding underscore_run_phase_def
    by (rule and_then_snd) (simp_all add: u status_plan q)
qed

lemma call_run_phase: "call_method ''run_phase'' phase c = (Inl (AttributeError ''run_phase''), c)"
  by (simp add: call_method_def attributes_def)

lemma run_init_raises: "run_init c = (Inl (AttributeError ''run_phase''), c)"
  by (simp add: run_init_def call_run_phase and_then_def)

lemma run_cleanup_registered:
  "''status'' \<in> callbacks c \<Longrightarrow>
   run_cleanup c =
     (Inl (AttributeError ''run_phase''),
      c\<lparr>delivered := delivered c @ [(''phase'', ''cleanup'', ''start'')]\<rparr>)"
  by (simp add: run_cleanup_def status_def call_run_phase and_then_def)

lemma run_cleanup_unregistered:
  "''status'' \<notin> callbacks c \<Longrightarrow> run_cleanup c = (Inl (KeyError (PStr ''status'')), c)"
  by (simp add: run_cleanup_def status_def and_then_def)

lemma run_cleanup_plan: "plan (snd (run_cleanup c)) = plan c"
  by (cases "''status'' \<in> callbacks c")
     (simp_all add: run_cleanup_registered run_cleanup_unregistered)

lemma deploy_marker_keyless:
  assumes "dependency (plan c) = None"
  shows "\<exists>r. deploy_marker key R c = (r, R, c)"
  using assms by (auto simp: deploy_marker_def split: sum.splits)

lemma scan_markers_keyless:
  assumes "dependency (plan c) = None"
  shows "\<exists>r. scan_markers keys R c = (r, R, c)"
proof (induct keys)
  case Nil
  show ?case by simp
next
  case (Cons key keys)
  from deploy_marker_keyless [OF assms] obtain r1 where d: "deploy_marker key R c = (r1, R, c)"
    by blast
  with Cons show ?case by (cases r1) auto
qed

lemma deployment_loop_induct [consumes 1, case_names stop error continue]:
  assumes "deployment_loop R c = Some y"
    and "\<And>R c. waiting (plan c) = {} \<Longrightarrow> in_progress (plan c) = {} \<Longrightarrow> P R c (Inr (), c)"
    and "\<And>R c e R1 c1.
          waiting (plan c) \<noteq> {} \<or> in_progress (plan c) \<noteq> {} \<Longrightarrow>
          scan_markers (map fst (manifests (plan c))) R c = (Inl e, R1, c1) \<Longrightarrow>
          P R c (Inl e, c1)"
    and "\<And>R c R1 c1 y.
          waiting (plan c) \<noteq> {} \<or> in_progress (plan c) \<noteq> {} \<Longrightarrow>
          scan_markers (map fst (manifests (plan c))) R c = (Inr (), R1, c1) \<Longrightarrow>
          P R1 c1 y \<Longrightarrow> P R c y"
  shows "P R c y"
proof (rule deployment_loop.raw_induct [where P = P, OF _ assms(1)])
  fix loop R c y
  assume IH: "\<And>R c y. loop R c = Some y \<Longrightarrow> P R c y"
    and eq: "(if waiting (plan c) \<noteq> {} \<or> in_progress (plan c) \<noteq> {}
      then case scan_markers (map fst (manifests (plan c))) R c of
             (Inl e, R1, c1) \<Rightarrow> Some (Inl e, c1)
           | (Inr u, R1, c1) \<Rightarrow> loop R1 c1
      else Some (Inr (), c)) = Some y"
  show "P R c y"
  proof (cases "waiting (plan c) \<noteq> {} \<or> in_progress (plan c) \<noteq> {}")
    case False
    with eq have "y = (Inr (), c)" by auto
    with False assms(2) show ?thesis by simp
  next
    case True
    obtain r1 R1 c1 where s: "scan_markers (map fst (manifests (plan c))) R c = (r1, R1, c1)"
      by (cases "scan_markers (map fst (manifests (plan c))) R c") auto
    show ?thesis
    proof (cases r1)
      case (Inl e)
      with eq True s have "y = (Inl e, c1)" by auto
      with assms(3) [OF True] s Inl show ?thesis by simp
    next
      case (Inr u)
      with eq True s have "loop R1 c1 = Some y" by simp
      then have "P R1 c1 y" by (rule IH)
      with assms(4) [OF True] s Inr show ?thesis by simp
    qed
  qed
qed

lemma deployment_loop_keyless:
  assumes "deployment_loop R c = Some y" and "dependency (plan c) = None"
  shows "snd y = c"
  using assms
proof (induct rule: deployment_loop_induct)
  case (stop R c)
  show ?case by simp
next
  case (error R c e R1 c1)
  with scan_markers_keyless [of c "map fst (manifests (plan c))" R] show ?case by auto
next
  case (continue R c R1 c1 y)
  with scan_markers_keyless [of c "map fst (manifests (plan c))" R] show ?case by auto
qed

lemma status_cases:
  "status ut un us c = (Inl (KeyError (PStr ''status'')), c) \<and> ''status'' \<notin> callbacks c \<or>
   status ut un us c = (Inr (), c\<lparr>delivered := delivered c @ [(ut, un, us)]\<rparr>)
     \<and> ''status'' \<in> callbacks c"
  by (simp add: status_def)

lemma run_deployment_keyless:
  assumes "run_deployment c = Some (r, c')" and "dependency (plan c) = None"
  shows "plan c' = plan c \<and> history c' = history c"
proof (cases "''status'' \<in> callbacks c")
  case False
  with assms show ?thesis by (simp add: run_deployment_def status_def)
next
  case True
  define c1 where "c1 = c\<lparr>delivered := delivered c @ [(''phase'', ''deployment'', ''start'')]\<rparr>"
  have k1: "dependency (plan c1) = None" using assms(2) by (simp add: c1_def)
  from True have st: "status ''phase'' ''deployment'' ''start'' c = (Inr (), c1)"
    by (simp add: status_def c1_def)
  show ?thesis
  proof (cases "deployment_loop Map.empty c1")
    case None
    with assms st show ?thesis by (simp add: run_deployment_def)
  next
    case (Some y)
    from deployment_loop_keyless [OF Some k1] have y: "snd y = c1" .
    obtain r2 c2 where y2: "y = (r2, c2)" by (cases y)
    with y have c2: "c2 = c1" by simp
    show ?thesis
    proof (cases r2)
      case (Inl e)
      with assms st Some y2 c2 show ?thesis by (auto simp: run_deployment_def c1_def)
    next
      case (Inr u)
      with assms st Some y2 c2 have "(r, c') = status ''phase'' ''deployment'' ''end'' c1"
        by (simp add: run_deployment_def)
      then have "c' = snd (status ''phase'' ''deployment'' ''end'' c1)"
        by (metis snd_conv)
      then show ?thesis by (simp add: status_def c1_def)
    qed
  qed
qed

lemma init_plan: "init plugs ds = Inr c \<Longrightarrow> plan c = empty_plan"
  by (auto simp: init_def split: sum.splits)

lemma reachable_planning: "reachable c \<Longrightarrow> planning (plan c) \<and> dependency (plan c) = None"
proof (induct rule: reachable.induct)
  case (reachable_init plugs ds c)
  then show ?case by (simp add: init_plan empty_plan_def planning_def)
next
  case (reachable_register c)
  then show ?case by (simp add: register_status_callback_def)
next
  case (reachable_run_phase c phase)
  then show ?case
    using run_phase_stable [where Q = planning, OF add_record_planning]
      run_phase_stable [where Q = "\<lambda>p. dependency p = None", OF add_record_keyless]
    by blast
next
  case (reachable_add_record c rec)
  then show ?case by (simp add: add_record_planning add_record_keyless)
next
  case (reachable_run_init c)
  then show ?case by (simp add: run_init_raises)
next
  case (reachable_run_deployment c r c')
  then show ?case using run_deployment_keyless by metis
next
  case (reachable_run_cleanup c)
  then show ?case by (simp add: run_cleanup_plan)
qed

lemma fresh_init:
  "init [scenario_plugin] [quiet_drone (PStr ''host1''), quiet_drone (PStr ''host2'')] = Inr fresh"
  by (simp add: init_def fresh_def scenario_plugin_def quiet_drone_def)

lemma reachable_scenario: "reachable scenario"
  unfolding scenario_def by (rule reachable_register, rule reachable_init, rule fresh_init)

lemma reachable_planned_once: "reachable planned_once"
  unfolding planned_once_def by (rule reachable_run_phase, rule reachable_scenario)

lemma plan_phase_scenario:
  "underscore_run_phase ''plan'' scenario =
     (Inl (KeyError (PStr ''dependency'')),
      scenario
        \<lparr>delivered := [(''phase'', ''plan'', ''start''), (''step'', ''plan_sql'', ''start'')],
         plan := empty_plan
           \<lparr>manifests := [(PStr ''markerA'', [(PStr ''host1'', PStr ''m1'')])],
            waiting := {PStr ''markerA''}\<rparr>,
         added := [(PStr ''host1'', PStr ''m1'')]\<rparr>)"
  by (simp add: underscore_run_phase_def and_then_def status_def scenario_def fresh_def
      register_status_callback_def scenario_plugin_def phase_steps_def run_step_def
      scenario_step_def plan_step_def add_record_def find_drone_def quiet_drone_def empty_plan_def)

lemma two_steps_prep:
  "underscore_run_phase ''prep'' two_steps =
     (Inr (),
      two_steps
        \<lparr>delivered :=
           [(''phase'', ''prep'', ''start''),
            (''step'', ''slow'', ''start''), (''step'', ''slow'', ''end''),
            (''step'', ''fast'', ''start''), (''step'', ''fast'', ''end''),
            (''phase'', ''prep'', ''end'')],
         history :=
           [Started (StepTask ''slow'' (PStr ''host1'')),
            Started (StepTask ''fast'' (PStr ''host1'')),
            Finished (StepTask ''fast'' (PStr ''host1''))]\<rparr>)"
  by (simp add: underscore_run_phase_def and_then_def status_def two_steps_def
      phase_steps_def run_step_def slow_step_def fast_step_def host_step_def step_greenlet_def
      start_def observe_def post_run_def post_greenlet_def quiet_drone_def numeral_2_eq_2)

lemma wait_single_pass:
  "wait_for_runners [Greenlet t (Callable 1 Returns)] c =
     (Inr (), [Greenlet t (Callable 0 Returns)], c)"
  by simp

lemma two_steps_init:
  "underscore_run_phase ''init'' two_steps =
     (Inr (),
      two_steps
        \<lparr>delivered :=
           [(''phase'', ''init'', ''start''),
            (''step'', ''fast'', ''start''), (''step'', ''fast'', ''end''),
            (''phase'', ''init'', ''end'')],
         info := [PStr ''host1'' \<mapsto> PNone],
         history :=
           [Started (StepTask ''fast'' (PStr ''host1'')),
            Finished (StepTask ''fast'' (PStr ''host1'')),
            Started (InstallTask (PStr ''host1''))]\<rparr>)"
  by (simp add: underscore_run_phase_def and_then_def status_def two_steps_def
      phase_steps_def run_step_def fast_step_def host_step_def step_greenlet_def
      start_def observe_def post_run_def post_greenlet_def quiet_drone_def)

lemma unpack2_not_pair:
  assumes "\<not> (\<exists>a b. iter v = Inr [a, b])"
  shows "\<exists>e. unpack2 v = Inl e"
  using assms by (auto simp: unpack2_def split: sum.splits list.splits)

lemma deploy_marker_untouched:
  assumes "dependency (plan c) = None" and "finished (plan c) = {}"
  shows "\<exists>e. deploy_marker key R c = (Inl e, R, c)"
  using assms by (auto simp: deploy_marker_def split: sum.splits)

lemma scan_markers_untouched:
  assumes "dependency (plan c) = None" and "finished (plan c) = {}" and "keys \<noteq> []"
  shows "\<exists>e. scan_markers keys R c = (Inl e, R, c)"
proof (cases keys)
  case Nil
  with assms show ?thesis by simp
next
  case (Cons key rest)
  from deploy_marker_untouched [OF assms(1,2)] obtain e
    where "deploy_marker key R c = (Inl e, R, c)" by blast
  with Cons show ?thesis by simp
qed

lemma first_scan_raises:
  assumes "reachable c" and "waiting (plan c) \<noteq> {}"
  shows "\<exists>e. scan_markers (map fst (manifests (plan c))) R c = (Inl e, R, c)"
proof -
  from reachable_planning [OF assms(1)]
  have p: "planning (plan c)" and k: "dependency (plan c) = None" by simp_all
  from p assms(2) have "map fst (manifests (plan c)) \<noteq> []" by (auto simp: planning_def)
  moreover from p have "finished (plan c) = {}" by (simp add: planning_def)
  ultimately show ?thesis using k by (simp add: scan_markers_untouched)
qed

lemma deployment_loop_raises:
  assumes "dependency (plan c) = None" and "finished (plan c) = {}"
    and "waiting (plan c) \<noteq> {}" and "manifests (plan c) \<noteq> []"
  shows "\<exists>e. deployment_loop R c = Some (Inl e, c)"
proof -
  from assms(4) have "map fst (manifests (plan c)) \<noteq> []" by simp
  from scan_markers_untouched [OF assms(1,2) this] obtain e
    where "scan_markers (map fst (manifests (plan c))) R c = (Inl e, R, c)" by blast
  with assms(3) show ?thesis by (subst deployment_loop.simps) simp
qed

lemma run_deployment_raises:
  assumes "reachable c" and "waiting (plan c) \<noteq> {}"
  shows "\<exists>e c'. run_deployment c = Some (Inl e, c') \<and> plan c' = plan c \<and> history c' = history c"
proof -
  from reachable_planning [OF assms(1)]
  have p: "planning (plan c)" and k: "dependency (plan c) = None" by simp_all
  show ?thesis
  proof (cases "''status'' \<in> callbacks c")
    case False
    then show ?thesis by (simp add: run_deployment_def status_def)
  next
    case True
    define c1 where "c1 = c\<lparr>delivered := delivered c @ [(''phase'', ''deployment'', ''start'')]\<rparr>"
    have pl: "plan c1 = plan c" by (simp add: c1_def)
    from p assms(2) have "manifests (plan c1) \<noteq> []" by (auto simp: planning_def pl)
    moreover from p have "finished (plan c1) = {}" by (simp add: planning_def pl)
    ultimately obtain e where "deployment_loop Map.empty c1 = Some (Inl e, c1)"
      using deployment_loop_raises [of c1 Map.empty] k assms(2) by (auto simp: pl)
    with True show ?thesis by (simp add: run_deployment_def status_def c1_def [symmetric]) (simp add: c1_def)
  qed
qed

lemma run_deployment_returns:
  assumes "reachable c" and "run_deployment c = Some (Inr (), c')"
  shows "waiting (plan c) = {} \<and> manifests (plan c) = []"
proof -
  from reachable_planning [OF assms(1)] have p: "planning (plan c)" by simp
  have "waiting (plan c) = {}"
  proof (rule ccontr)
    assume "waiting (plan c) \<noteq> {}"
    from run_deployment_raises [OF assms(1) this] assms(2) show False by auto
  qed
  with p show ?thesis by (simp add: planning_def)
qed

lemma run_deployment_empty:
  assumes "waiting (plan c) = {}" and "in_progress (plan c) = {}" and "''status'' \<in> callbacks c"
  shows "run_deployment c =
    Some (Inr (), c\<lparr>delivered := delivered c @
      [(''phase'', ''deployment'', ''start''), (''phase'', ''deployment'', ''end'')]\<rparr>)"
  using assms by (simp add: run_deployment_def status_def deployment_loop.simps)

lemma cleanup_rest_delivered:
  "\<exists>new. delivered (snd (cleanup_rest c)) = delivered c @ new \<and>
     (''phase'', ''cleanup'', ''end'') \<notin> set new \<and>
     (fst (cleanup_rest c) = Inr () \<longrightarrow> new = [(''phase'', ''cleanuo'', ''end'')]) \<and>
     (fst (cleanup_rest c) \<noteq> Inr () \<longrightarrow> new = [])"
proof -
  have ca: "\<And>c. delivered (snd (clean_all ds c)) = delivered c \<and>
      callbacks (snd (clean_all ds c)) = callbacks c" for ds
    by (induct ds) (auto simp: observe_def split: ending.splits)
  obtain r1 c1 where c1: "clean_all (drones c) c = (r1, c1)" by (cases "clean_all (drones c) c")
  with ca [of "drones c" c] have d1: "delivered c1 = delivered c" by simp
  show ?thesis
  proof (cases r1)
    case (Inl e)
    with c1 d1 show ?thesis by (simp add: cleanup_rest_def and_then_def)
  next
    case (Inr u)
    with c1 d1 show ?thesis by (auto simp: cleanup_rest_def and_then_def status_def)
  qed
qed

lemma and_then_assoc: "and_then (and_then r f) g = and_then r (\<lambda>c. and_then (f c) g)"
  by (cases r) (auto simp: and_then_def split: sum.splits)

lemma and_then_cong_right: "(\<And>c. f c = g c) \<Longrightarrow> and_then r f = and_then r g"
  by (cases r) (auto simp: and_then_def split: sum.splits)

lemma and_then_Inr:
  "and_then r f = (Inr u, c') \<longleftrightarrow> (\<exists>c1. r = (Inr (), c1) \<and> f c1 = (Inr u, c'))"
  by (cases r) (auto simp: and_then_def split: sum.splits)

lemma run_steps_append:
  "run_steps phase (xs @ ys) c = and_then (run_steps phase xs c) (run_steps phase ys)"
proof (induct xs arbitrary: c)
  case Nil
  show ?case by (simp add: and_then_def)
next
  case (Cons x xs)
  have "and_then (run_step phase x c) (run_steps phase (xs @ ys)) =
        and_then (run_step phase x c) (\<lambda>c. and_then (run_steps phase xs c) (run_steps phase ys))"
    by (rule and_then_cong_right) (rule Cons)
  then show ?case by (simp add: and_then_assoc)
qed

lemma run_plugins_init:
  "run_plugins ''init'' plugs c = run_steps ''init'' (concat (map init_steps plugs)) c"
proof (induct plugs arbitrary: c)
  case Nil
  show ?case by simp
next
  case (Cons plug plugs)
  have "and_then (run_steps ''init'' (init_steps plug) c) (run_plugins ''init'' plugs) =
        and_then (run_steps ''init'' (init_steps plug) c)
          (run_steps ''init'' (concat (map init_steps plugs)))"
    by (rule and_then_cong_right) (rule Cons)
  then show ?case by (simp add: phase_steps_def run_steps_append)
qed

lemma status_registered:
  "''status'' \<in> callbacks c \<Longrightarrow>
   status ut un us c = (Inr (), c\<lparr>delivered := delivered c @ [(ut, un, us)]\<rparr>)"
  by (simp add: status_def)

lemma host_step_quiet:
  "callbacks (snd (host_step st c)) = callbacks c \<and>
   delivered (snd (host_step st c)) = delivered c \<and> drones (snd (host_step st c)) = drones c"
  using host_step_frame [of c st] by (simp add: frameD)

lemma post_run_quiet:
  "callbacks (snd (post_run phase c)) = callbacks c \<and>
   delivered (snd (post_run phase c)) = delivered c"
  using post_run_frame [of c phase] by (simp add: frameD)

lemma run_step_events:
  assumes "''status'' \<in> callbacks c" and "phase \<noteq> ''plan''"
    and "run_step phase st c = (Inr (), c')"
  shows "delivered c' =
           delivered c @ [(''step'', func_name st, ''start''), (''step'', func_name st, ''end'')]
         \<and> callbacks c' = callbacks c \<and> drones c' = drones c"
proof -
  define c1 where "c1 = c\<lparr>delivered := delivered c @ [(''step'', func_name st, ''start'')]\<rparr>"
  obtain r2 c2 where h: "host_step st c1 = (r2, c2)" by (cases "host_step st c1")
  with host_step_quiet [of st c1]
  have q: "callbacks c2 = callbacks c" "delivered c2 = delivered c1" "drones c2 = drones c"
    by (simp_all add: c1_def)
  from assms h have "r2 = Inr ()"
    by (cases r2) (simp_all add: run_step_def status_registered and_then_def c1_def [symmetric])
  with assms h q have "c' = c2\<lparr>delivered := delivered c2 @ [(''step'', func_name st, ''end'')]\<rparr>"
    by (simp add: run_step_def status_registered and_then_def c1_def [symmetric])
  with q show ?thesis by (simp add: c1_def)
qed

lemma init_phase_single:
  assumes "concat (map init_steps (plugins c)) = [st]"
  shows "underscore_run_phase ''init'' c =
     and_then (status ''phase'' ''init'' ''start'' c)
       (\<lambda>c1. and_then (run_step ''init'' st c1)
          (\<lambda>c2. and_then (post_run ''init'' c2) (status ''phase'' ''init'' ''end'')))"
proof -
  have "\<And>c1. plugins c1 = plugins c \<Longrightarrow>
      run_plugins ''init'' (plugins c1) c1 = and_then (run_step ''init'' st c1) (\<lambda>c. (Inr (), c))"
    using assms by (simp add: run_plugins_init) (rule and_then_cong_right, simp)
  moreover have "\<And>e. plugins (snd (status ''phase'' ''init'' ''start'' c)) = plugins c"
    by (simp add: status_def)
  ultimately show ?thesis
    unfolding underscore_run_phase_def
    by (cases "''status'' \<in> callbacks c")
       (auto simp: and_then_def status_def split: sum.splits prod.splits)
qed

lemma init_phase_events_aux:
  assumes "''status'' \<in> callbacks c" and "concat (map init_steps (plugins c)) = [st]"
    and "underscore_run_phase ''init'' c = (Inr (), c')"
  shows "delivered c' =
        delivered c @ [(''phase'', ''init'', ''start''), (''step'', func_name st, ''start''),
                       (''step'', func_name st, ''end''), (''phase'', ''init'', ''end'')]"
proof -
  define c1 where "c1 = c\<lparr>delivered := delivered c @ [(''phase'', ''init'', ''start'')]\<rparr>"
  have r1: "''status'' \<in> callbacks c1" using assms(1) by (simp add: c1_def)
  from assms(3) [unfolded init_phase_single [OF assms(2)]] assms(1)
  obtain c2 c3 where s2: "run_step ''init'' st c1 = (Inr (), c2)"
      and s3: "post_run ''init'' c2 = (Inr (), c3)"
      and s4: "status ''phase'' ''init'' ''end'' c3 = (Inr (), c')"
    by (auto simp: and_then_Inr status_registered c1_def)
  from run_step_events [OF r1 _ s2]
  have d2: "delivered c2 = delivered c1 @
      [(''step'', func_name st, ''start''), (''step'', func_name st, ''end'')]"
    and k2: "callbacks c2 = callbacks c1" by simp_all
  from post_run_quiet [of "''init''" c2] s3
  have d3: "delivered c3 = delivered c2" and k3: "callbacks c3 = callbacks c2" by simp_all
  from s4 k3 k2 r1 have "c' = c3\<lparr>delivered := delivered c3 @ [(''phase'', ''init'', ''end'')]\<rparr>"
    by (simp add: status_def)
  with d3 d2 show ?thesis by (simp add: c1_def)
qed

lemma host_step_single:
  assumes "drones c = [d]" and "snd (per_host st (host d)) = Returns \<or> 2 \<le> fst (per_host st (host d))"
  shows "fst (host_step st c) = Inr ()"
proof -
  obtain n e where pe: "per_host st (host d) = (n, e)" by (cases "per_host st (host d)")
  show ?thesis
  proof (cases n)
    case 0
    with assms pe show ?thesis
      by (simp add: host_step_def step_greenlet_def start_def)
  next
    case (Suc k)
    show ?thesis
    proof (cases k)
      case 0
      with Suc assms pe show ?thesis
        by (simp add: host_step_def step_greenlet_def start_def)
    next
      case (Suc j)
      with \<open>n = Suc k\<close> assms pe show ?thesis
        by (simp add: host_step_def step_greenlet_def start_def)
    qed
  qed
qed

lemma post_run_init_single:
  assumes "drones c = [d]" and "init_host d = Returns" and "discover d = Inr facts"
  shows "fst (post_run ''init'' c) = Inr ()"
  using assms by (simp add: post_run_def post_greenlet_def start_def)

lemma init_phase_returns:
  assumes "''status'' \<in> callbacks c" and "concat (map init_steps (plugins c)) = [st]"
    and "drones c = [d]"
    and "snd (per_host st (host d)) = Returns \<or> 2 \<le> fst (per_host st (host d))"
    and "init_host d = Returns" and "discover d = Inr facts"
  shows "fst (underscore_run_phase ''init'' c) = Inr ()"
proof -
  define c1 where "c1 = c\<lparr>delivered := delivered c @ [(''phase'', ''init'', ''start'')]\<rparr>"
  define c1' where "c1' = c1\<lparr>delivered := delivered c1 @ [(''step'', func_name st, ''start'')]\<rparr>"
  have s1: "status ''step'' (func_name st) ''start'' c1 = (Inr (), c1')"
    using assms(1) by (simp add: status_def c1_def c1'_def)
  have dr: "drones c1' = [d]" using assms(3) by (simp add: c1_def c1'_def)
  obtain r2 c2 where h: "host_step st c1' = (r2, c2)" by (cases "host_step st c1'")
  with host_step_single [OF dr assms(4)] have r2: "r2 = Inr ()" by simp
  from h host_step_quiet [of st c1'] have q2: "callbacks c2 = callbacks c" "drones c2 = [d]"
    using dr by (simp_all add: c1_def c1'_def)
  define c3 where "c3 = c2\<lparr>delivered := delivered c2 @ [(''step'', func_name st, ''end'')]\<rparr>"
  have dr3: "drones c3 = [d]" using q2 by (simp add: c3_def)
  obtain r4 c4 where p: "post_run ''init'' c3 = (r4, c4)" by (cases "post_run ''init'' c3")
  with post_run_init_single [OF dr3 assms(5,6)] have r4: "r4 = Inr ()" by simp
  from p post_run_quiet [of "''init''" c3] q2 have q4: "callbacks c4 = callbacks c"
    by (simp add: c3_def)
  have "run_step ''init'' st c1 = (Inr (), c3)"
    using assms(1) h r2 q2 unfolding run_step_def s1
    by (simp add: status_def and_then_def c3_def)
  then show ?thesis
    unfolding init_phase_single [OF assms(2)]
    using assms(1) p r4 q4
    by (simp add: and_then_def status_def c1_def [symmetric])
qed

lemma lazy_init:
  "map_sum id register_status_callback (init [lazy_plugin] [quiet_drone (PStr ''host1'')]) =
     Inr lazy"
  by (simp add: init_def lazy_def lazy_plugin_def quiet_drone_def register_status_callback_def)

lemma lazy_run:
  "underscore_run_phase ''init'' lazy =
     (Inr (),
      lazy
        \<lparr>delivered :=
           [(''phase'', ''init'', ''start''),
            (''step'', ''slow'', ''start''), (''step'', ''slow'', ''end''),
            (''phase'', ''init'', ''end'')],
         info := [PStr ''host1'' \<mapsto> PNone],
         history :=
           [Started (StepTask ''slow'' (PStr ''host1'')),
            Started (InstallTask (PStr ''host1''))]\<rparr>)"
  by (simp add: underscore_run_phase_def and_then_def status_def lazy_def lazy_plugin_def
      phase_steps_def run_step_def slow_step_def host_step_def step_greenlet_def
      start_def observe_def post_run_def post_greenlet_def quiet_drone_def numeral_2_eq_2)

lemma cyclic_init:
  "init [cyclic_plugin] [quiet_drone (PStr ''host1''), quiet_drone (PStr ''host2'')] =
     Inr cyclic_fresh"
  by (simp add: init_def cyclic_fresh_def cyclic_plugin_def quiet_drone_def)

lemma reachable_cyclic_site: "reachable cyclic_site"
  unfolding cyclic_site_def
  by (rule reachable_run_phase, rule reachable_register, rule reachable_init, rule cyclic_init)




lemma planned_once_eq:
  "planned_once =
     scenario
        \<lparr>delivered := [(''phase'', ''plan'', ''start''), (''step'', ''plan_sql'', ''start'')],
         plan := empty_plan
           \<lparr>manifests := [(PStr ''markerA'', [(PStr ''host1'', PStr ''m1'')])],
            waiting := {PStr ''markerA''}\<rparr>,
         added := [(PStr ''host1'', PStr ''m1'')]\<rparr>"
  by (simp add: planned_once_def plan_phase_scenario)

lemma planned_once_run:
  "run_deployment planned_once =
     Some (Inl ValueError,
           planned_once\<lparr>delivered :=
             [(''phase'', ''plan'', ''start''), (''step'', ''plan_sql'', ''start''),
              (''phase'', ''deployment'', ''start'')]\<rparr>)"
  unfolding planned_once_eq
  apply (simp add: run_deployment_def status_def scenario_def fresh_def
      register_status_callback_def empty_plan_def)
  apply (subst deployment_loop.simps)
  apply (simp add: deploy_marker_def unpack2_def)
  done

lemma clean_all_returns:
  "\<forall>d\<in>set ds. clean d = Returns \<Longrightarrow>
   clean_all ds c =
     (Inr (), c\<lparr>history := history c @ map (\<lambda>d. Finished (CleanTask (host d))) ds\<rparr>)"
  by (induct ds arbitrary: c) (simp_all add: observe_def)

lemma cleanup_rest_returns:
  assumes "''status'' \<in> callbacks c" and "\<forall>d\<in>set (drones c). clean d = Returns"
  shows "cleanup_rest c =
     (Inr (),
      c\<lparr>delivered := delivered c @ [(''phase'', ''cleanuo'', ''end'')],
        history := history c @ map (\<lambda>d. Finished (CleanTask (host d))) (drones c)\<rparr>)"
  using assms by (simp add: cleanup_rest_def clean_all_returns and_then_def status_def)

lemma reachable_run_deployment_ends:
  assumes "reachable c"
  shows "\<exists>r c'. run_deployment c = Some (r, c') \<and> plan c' = plan c \<and> history c' = history c"
proof -
  from reachable_planning [OF assms]
  have p: "planning (plan c)" and k: "dependency (plan c) = None" by simp_all
  show ?thesis
  proof (cases "waiting (plan c) = {}")
    case False
    from run_deployment_raises [OF assms False] show ?thesis by blast
  next
    case True
    with p have ip: "in_progress (plan c) = {}" by (simp add: planning_def)
    show ?thesis
    proof (cases "''status'' \<in> callbacks c")
      case False
      then show ?thesis by (simp add: run_deployment_def status_def)
    next
      case reg: True
      from run_deployment_empty [OF True ip reg] show ?thesis by simp
    qed
  qed
qed



subsection \<open>The deployment executor on any plan\<close>

lemma alive_Nil [simp]: "alive [] t = 0"
  by (simp add: alive_def)

lemma alive_Cons:
  "alive (g # gs) t = (if \<not> dead g \<and> task_of g = t then 1 else 0) + alive gs t"
  by (simp add: alive_def)

lemma alive_append: "alive (xs @ ys) t = alive xs t + alive ys t"
  by (simp add: alive_def)

lemma switch_task: "switch g c = (r, g', c') \<Longrightarrow> task_of g' = task_of g"
  by (induct g c rule: switch.induct) (auto split: ending.splits sum.splits)

lemma switch_history:
  assumes "switch g c = (r, g', c')" and "\<not> dead g"
  shows "(r = Inr () \<and> \<not> dead g' \<and> history c' = history c)
       \<or> (r = Inr () \<and> dead g' \<and> history c' = history c @ [Finished (task_of g)])
       \<or> (\<exists>x. r = Inl (Exc x) \<and> dead g' \<and> history c' = history c @ [Failed (task_of g) x])"
  using assms
  by (induct g c rule: switch.induct) (auto simp: observe_def split: ending.splits sum.splits)

lemma wait_for_runners_history:
  assumes "wait_for_runners runs c = (r, runs', c')"
  shows "\<exists>evs. history c' = history c @ evs
      \<and> (\<forall>ob\<in>set evs. subject ob \<in> task_of ` set runs \<and> (\<forall>t. ob \<noteq> Started t))
      \<and> task_of ` set runs' \<subseteq> task_of ` set runs
      \<and> (r = Inr () \<longrightarrow> (\<forall>ob\<in>set evs. \<not> failure ob)
            \<and> (\<forall>t. alive runs t = count_list evs (Finished t) + alive runs' t))
      \<and> (\<forall>t x. Failed t x \<in> set evs \<longrightarrow> r = Inl (Exc x))"
  using assms
proof (induct runs arbitrary: c r runs' c')
  case Nil
  then show ?case by simp
next
  case (Cons run runs)
  show ?case
  proof (cases "dead run")
    case True
    with Cons.prems have w: "wait_for_runners runs c = (r, runs', c')" by simp
    from Cons.hyps [OF w] obtain evs where e: "history c' = history c @ evs"
      "\<forall>ob\<in>set evs. subject ob \<in> task_of ` set runs \<and> (\<forall>t. ob \<noteq> Started t)"
      "task_of ` set runs' \<subseteq> task_of ` set runs"
      "r = Inr () \<longrightarrow> (\<forall>ob\<in>set evs. \<not> failure ob)
            \<and> (\<forall>t. alive runs t = count_list evs (Finished t) + alive runs' t)"
      "\<forall>t x. Failed t x \<in> set evs \<longrightarrow> r = Inl (Exc x)"
      by blast
    show ?thesis
      apply (rule exI [of _ evs])
      using e True by (auto simp: alive_Cons)
  next
    case False
    obtain r1 run1 c1 where sw: "switch run c = (r1, run1, c1)"
      by (cases "switch run c") auto
    note t1 = switch_task [OF sw]
    note h1 = switch_history [OF sw False]
    show ?thesis
    proof (cases r1)
      case (Inl e)
      with Cons.prems False sw have res: "r = Inl e" "runs' = run1 # runs" "c' = c1" by simp_all
      from h1 Inl obtain x where x: "e = Exc x" "dead run1"
        "history c1 = history c @ [Failed (task_of run) x]" by auto
      show ?thesis
        apply (rule exI [of _ "[Failed (task_of run) x]"])
        using res x t1 by auto
    next
      case (Inr u)
      obtain r2 runs2 c2 where w: "wait_for_runners runs c1 = (r2, runs2, c2)"
        by (cases "wait_for_runners runs c1") auto
      with Cons.prems False sw Inr have res: "r = r2" "runs' = run1 # runs2" "c' = c2" by simp_all
      from Cons.hyps [OF w] obtain evs where e: "history c2 = history c1 @ evs"
        "\<forall>ob\<in>set evs. subject ob \<in> task_of ` set runs \<and> (\<forall>t. ob \<noteq> Started t)"
        "task_of ` set runs2 \<subseteq> task_of ` set runs"
        "r2 = Inr () \<longrightarrow> (\<forall>ob\<in>set evs. \<not> failure ob)
            \<and> (\<forall>t. alive runs t = count_list evs (Finished t) + alive runs2 t)"
        "\<forall>t x. Failed t x \<in> set evs \<longrightarrow> r2 = Inl (Exc x)"
        by blast
      from h1 Inr consider
          (yields) "\<not> dead run1" "history c1 = history c"
        | (ends) "dead run1" "history c1 = history c @ [Finished (task_of run)]"
        by auto
      then show ?thesis
      proof cases
        case yields
        show ?thesis
          apply (rule exI [of _ evs])
          using res e yields t1 False by (auto simp: alive_Cons)
      next
        case ends
        show ?thesis
          apply (rule exI [of _ "Finished (task_of run) # evs"])
          using res e ends t1 False by (auto simp: alive_Cons)
      qed
    qed
  qed
qed

lemma count_list_append: "count_list (xs @ ys) x = count_list xs x + count_list ys x"
  by (induct xs) auto

lemma count_list_no_start:
  "\<forall>ob\<in>set evs. \<forall>t. ob \<noteq> Started t \<Longrightarrow> count_list evs (Started t) = 0"
  by (induct evs) auto

lemma segment_refl:
  "\<forall>g\<in>set runs. marker_of (task_of g) = Some m \<Longrightarrow> segment m (Inr ()) runs runs []"
  by (simp add: segment_def)

lemma segment_trans:
  assumes "segment m (Inr ()) runs runs1 evs1" and "segment m r runs1 runs2 evs2"
  shows "segment m r runs runs2 (evs1 @ evs2)"
  using assms unfolding segment_def
  by (auto simp: count_list_append) (metis add.assoc add.commute)

lemma segment_wait:
  assumes "wait_for_runners runs c = (r, runs', c')"
    and "\<forall>g\<in>set runs. marker_of (task_of g) = Some m"
  shows "\<exists>evs. history c' = history c @ evs \<and> segment m r runs runs' evs"
proof -
  from wait_for_runners_history [OF assms(1)] obtain evs where e: "history c' = history c @ evs"
      "\<forall>ob\<in>set evs. subject ob \<in> task_of ` set runs \<and> (\<forall>t. ob \<noteq> Started t)"
      "task_of ` set runs' \<subseteq> task_of ` set runs"
      "r = Inr () \<longrightarrow> (\<forall>ob\<in>set evs. \<not> failure ob)
            \<and> (\<forall>t. alive runs t = count_list evs (Finished t) + alive runs' t)"
      "\<forall>t x. Failed t x \<in> set evs \<longrightarrow> r = Inl (Exc x)"
    by blast
  from e(2) have ns: "\<And>t. count_list evs (Started t) = 0"
    by (intro count_list_no_start) auto
  have "segment m r runs runs' evs"
    unfolding segment_def
  proof (intro conjI)
    show "\<forall>ob\<in>set evs. about m ob" using e(2) assms(2) by (auto simp: about_def)
    show "\<forall>g\<in>set runs'. marker_of (task_of g) = Some m" using e(3) assms(2) by auto
    show "r = Inr () \<longrightarrow> (\<forall>ob\<in>set evs. \<not> failure ob)
        \<and> (\<forall>t. count_list evs (Started t) + alive runs t = count_list evs (Finished t) + alive runs' t)"
      using e(4) ns by simp
    show "\<forall>t x. Failed t x \<in> set evs \<longrightarrow> r = Inl (Exc x)" using e(5) .
  qed
  with e(1) show ?thesis by blast
qed

lemma start_history:
  assumes "start (Greenlet t (Callable n e)) c = (r, g', c')"
  shows "task_of g' = t \<and>
       ((r = Inr () \<and> \<not> dead g' \<and> history c' = history c @ [Started t])
       \<or> (r = Inr () \<and> dead g' \<and> history c' = history c @ [Started t, Finished t])
       \<or> (\<exists>x. r = Inl (Exc x) \<and> dead g' \<and> history c' = history c @ [Started t, Failed t x]))"
proof -
  from assms have sw: "switch (Greenlet t (Callable n e)) (observe (Started t) c) = (r, g', c')"
    by (simp add: start_def)
  have nd: "\<not> dead (Greenlet t (Callable n e))" by simp
  from switch_task [OF sw] switch_history [OF sw nd] show ?thesis
    by (auto simp: observe_def)
qed

lemma tracked_add_runner:
  "tracked (add_runner m run R) m' = (if m' = m then tracked R m @ [run] else tracked R m')"
  by (simp add: tracked_def add_runner_def split: option.splits)

lemma add_runner_other: "m' \<noteq> m \<Longrightarrow> add_runner m run R m' = R m'"
  by (simp add: add_runner_def)

lemma segment_start:
  assumes "start (deploy_greenlet m d mf) c = (r, run, c')"
    and "\<forall>g\<in>set runs. marker_of (task_of g) = Some m"
  shows "\<exists>evs. history c' = history c @ evs \<and> segment m r runs (runs @ [run]) evs"
proof -
  let ?t = "DeployTask m (host d) mf"
  from assms(1) start_history [of ?t _ _ c r run c']
  have h: "task_of run = ?t \<and>
       ((r = Inr () \<and> \<not> dead run \<and> history c' = history c @ [Started ?t])
       \<or> (r = Inr () \<and> dead run \<and> history c' = history c @ [Started ?t, Finished ?t])
       \<or> (\<exists>x. r = Inl (Exc x) \<and> dead run \<and> history c' = history c @ [Started ?t, Failed ?t x]))"
    by (simp add: deploy_greenlet_def)
  then consider
      (yields) "r = Inr ()" "\<not> dead run" "history c' = history c @ [Started ?t]"
    | (ends) "r = Inr ()" "dead run" "history c' = history c @ [Started ?t, Finished ?t]"
    | (raises) x where "r = Inl (Exc x)" "dead run"
        "history c' = history c @ [Started ?t, Failed ?t x]"
    by blast
  then show ?thesis
  proof cases
    case yields
    with h assms(2) show ?thesis
      by (intro exI [of _ "[Started ?t]"])
         (auto simp: segment_def about_def alive_append alive_Cons)
  next
    case ends
    with h assms(2) show ?thesis
      by (intro exI [of _ "[Started ?t, Finished ?t]"])
         (auto simp: segment_def about_def alive_append alive_Cons)
  next
    case raises
    with h assms(2) show ?thesis
      by (intro exI [of _ "[Started ?t, Failed ?t x]"])
         (auto simp: segment_def about_def alive_append alive_Cons)
  qed
qed

lemma start_deploys_segment:
  assumes "start_deploys m xs R c = (r, R', c')"
    and "\<forall>g\<in>set (tracked R m). marker_of (task_of g) = Some m"
  shows "\<exists>evs. history c' = history c @ evs \<and> frame c c'
       \<and> (\<forall>m'. m' \<noteq> m \<longrightarrow> R' m' = R m')
       \<and> segment m r (tracked R m) (tracked R' m) evs"
  using assms
proof (induct xs arbitrary: R c)
  case Nil
  then show ?case by (auto simp: frame_refl segment_refl)
next
  case (Cons x xs)
  show ?case
  proof (cases "unpack2 x")
    case (Inl e)
    with Cons.prems show ?thesis by (auto simp: frame_refl segment_def)
  next
    case (Inr hm)
    obtain h mf where hm: "hm = (h, mf)" by (cases hm)
    show ?thesis
    proof (cases "find_drone c h")
      case (Inl e)
      with Cons.prems Inr hm show ?thesis by (auto simp: frame_refl segment_def)
    next
      case d: (Inr d)
      obtain r1 run c1 where s: "start (deploy_greenlet m d mf) c = (r1, run, c1)"
        by (cases "start (deploy_greenlet m d mf) c") auto
      from segment_start [OF s Cons.prems(2)] obtain evs1
        where e1: "history c1 = history c @ evs1"
          "segment m r1 (tracked R m) (tracked R m @ [run]) evs1" by blast
      have f1: "frame c c1" using s by (rule start_frame)
      let ?R1 = "add_runner m run R"
      have t1: "tracked ?R1 m = tracked R m @ [run]" by (simp add: tracked_add_runner)
      show ?thesis
      proof (cases r1)
        case (Inl e)
        with Cons.prems(1) Inr hm d s have "r = r1" "R' = ?R1" "c' = c1" by simp_all
        with e1 f1 t1 show ?thesis by (auto simp: add_runner_other)
      next
        case u: (Inr u)
        with Cons.prems(1) Inr hm d s have rec: "start_deploys m xs ?R1 c1 = (r, R', c')" by simp
        from e1(2) have wf1: "\<forall>g\<in>set (tracked ?R1 m). marker_of (task_of g) = Some m"
          by (simp add: t1 segment_def)
        from Cons.hyps [OF rec wf1] obtain evs2
          where e2: "history c' = history c1 @ evs2" "frame c1 c'"
            "\<forall>m'. m' \<noteq> m \<longrightarrow> R' m' = ?R1 m'"
            "segment m r (tracked ?R1 m) (tracked R' m) evs2" by blast
        from e1(2) u have "segment m (Inr ()) (tracked R m) (tracked ?R1 m) evs1"
          by (simp add: t1)
        from segment_trans [OF this e2(4)] e1(1) e2(1,2,3) f1 show ?thesis
          by (intro exI [of _ "evs1 @ evs2"]) (auto simp: add_runner_other intro: frame_trans)
      qed
    qed
  qed
qed

lemma segment_weaken: "segment m (Inr ()) runs runs' evs \<Longrightarrow> segment m r runs runs' evs"
  by (auto simp: segment_def)

lemma segment_idle:
  "\<forall>g\<in>set runs. marker_of (task_of g) = Some m \<Longrightarrow> segment m r runs runs []"
  by (simp add: segment_def)

lemma wf_runnersD: "wf_runners R \<Longrightarrow> \<forall>g\<in>set (tracked R m). marker_of (task_of g) = Some m"
  by (simp add: wf_runners_def)

lemma wf_runners_update:
  assumes "wf_runners R" and "\<forall>m'. m' \<noteq> m \<longrightarrow> R' m' = R m'"
    and "\<forall>g\<in>set (tracked R' m). marker_of (task_of g) = Some m"
  shows "wf_runners R'"
  unfolding wf_runners_def
proof (intro allI impI)
  fix m' g
  assume g: "g \<in> set (tracked R' m')"
  show "marker_of (task_of g) = Some m'"
  proof (cases "m' = m")
    case True
    with g assms(3) show ?thesis by simp
  next
    case False
    with assms(2) have "tracked R' m' = tracked R m'" by (simp add: tracked_def)
    with g assms(1) show ?thesis by (simp add: wf_runners_def)
  qed
qed

lemma initiate_summary:
  assumes "initiate m mfs R c = (r, R', c')" and "wf_runners R"
  shows "\<exists>evs. history c' = history c @ evs
       \<and> manifests (plan c') = manifests (plan c)
       \<and> dependency (plan c') = dependency (plan c)
       \<and> finished (plan c') = finished (plan c)
       \<and> (\<forall>m'. m' \<noteq> m \<longrightarrow> R' m' = R m')
       \<and> segment m r (tracked R m) (tracked R' m) evs"
proof (cases "R m")
  case (Some runs)
  with assms show ?thesis
    by (auto simp: initiate_def intro!: segment_idle dest: wf_runnersD)
next
  case None
  note wf = wf_runnersD [OF assms(2), of m]
  show ?thesis
  proof (cases "m \<in> waiting (plan c)")
    case False
    with assms None wf show ?thesis by (auto simp: initiate_def intro!: segment_idle)
  next
    case True
    define c1 where "c1 = c\<lparr>plan := (plan c)
                       \<lparr>waiting := waiting (plan c) - {m},
                        in_progress := insert m (in_progress (plan c))\<rparr>\<rparr>"
    have c1: "history c1 = history c" "manifests (plan c1) = manifests (plan c)"
      "dependency (plan c1) = dependency (plan c)" "finished (plan c1) = finished (plan c)"
      by (simp_all add: c1_def)
    show ?thesis
    proof (cases "iter mfs")
      case (Inl e)
      with assms None True have "r = Inl e" "R' = R" "c' = c1"
        by (simp_all add: initiate_def c1_def Let_def)
      with c1 wf show ?thesis by (auto intro!: segment_idle)
    next
      case (Inr xs)
      with assms None True have sd: "start_deploys m xs R c1 = (r, R', c')"
        by (simp add: initiate_def c1_def Let_def)
      from start_deploys_segment [OF sd wf] obtain evs
        where e: "history c' = history c1 @ evs" "frame c1 c'"
          "\<forall>m'. m' \<noteq> m \<longrightarrow> R' m' = R m'" "segment m r (tracked R m) (tracked R' m) evs"
        by blast
      from frameD(1) [OF e(2)] have "plan c' = plan c1" .
      with e c1 show ?thesis by auto
    qed
  qed
qed

lemma tracked_upd: "tracked (R(m \<mapsto> runs)) m' = (if m' = m then runs else tracked R m')"
  by (simp add: tracked_def)

lemma check_end_summary:
  assumes "check_end m R c = (r, R', c')" and "wf_runners R"
  shows "\<exists>evs. history c' = history c @ evs
       \<and> manifests (plan c') = manifests (plan c)
       \<and> dependency (plan c') = dependency (plan c)
       \<and> (\<forall>m'. m' \<noteq> m \<longrightarrow> R' m' = R m')
       \<and> segment m r (tracked R m) (tracked R' m) evs
       \<and> (finished (plan c') = finished (plan c)
          \<or> finished (plan c') = insert m (finished (plan c)) \<and> R' m = Some []
             \<and> (\<forall>ob\<in>set evs. \<not> failure ob))"
proof (cases "R m")
  case None
  with assms wf_runnersD [OF assms(2), of m] show ?thesis
    by (auto simp: check_end_def intro!: segment_idle)
next
  case (Some runs)
  then have tr: "tracked R m = runs" by (simp add: tracked_def)
  with wf_runnersD [OF assms(2), of m] have wf: "\<forall>g\<in>set runs. marker_of (task_of g) = Some m"
    by simp
  obtain r1 runs1 c1 where w: "wait_for_runners runs c = (r1, runs1, c1)"
    by (cases "wait_for_runners runs c") auto
  from segment_wait [OF w wf] obtain evs
    where e: "history c1 = history c @ evs" "segment m r1 runs runs1 evs" by blast
  from wait_for_runners_frame [OF w] have pl: "plan c1 = plan c" by (rule frameD)
  show ?thesis
  proof (cases r1)
    case (Inl err)
    with assms(1) Some w have "r = r1" "R' = R(m \<mapsto> runs1)" "c' = c1"
      by (simp_all add: check_end_def)
    with e pl tr show ?thesis by (auto simp: tracked_upd)
  next
    case (Inr u)
    then have nf: "\<forall>ob\<in>set evs. \<not> failure ob" using e(2) by (simp add: segment_def)
    from Inr e(2) have seg: "segment m r runs runs1 evs" by (auto intro: segment_weaken)
    show ?thesis
    proof (cases runs1)
      case (Cons run rest)
      with assms(1) Some w Inr have "r = Inr ()" "R' = R(m \<mapsto> runs1)" "c' = c1"
        by (simp_all add: check_end_def)
      with e pl tr seg show ?thesis by (auto simp: tracked_upd)
    next
      case Nil
      with assms(1) Some w Inr
      have "R' = R(m \<mapsto> [])" "history c' = history c1"
        "manifests (plan c') = manifests (plan c1)"
        "dependency (plan c') = dependency (plan c1)"
        "finished (plan c') = insert m (finished (plan c1))"
        by (auto simp: check_end_def Let_def split: if_splits)
      with e pl tr seg Nil nf show ?thesis by (auto simp: tracked_upd)
    qed
  qed
qed

lemma deploy_marker_summary:
  assumes "deploy_marker key R c = (r, R', c')" and "wf_runners R"
  shows "\<exists>evs. history c' = history c @ evs
       \<and> manifests (plan c') = manifests (plan c)
       \<and> dependency (plan c') = dependency (plan c)
       \<and> (idle R c R' c' evs \<or> (\<exists>m. active m r R c R' c' evs))"
proof (cases "unpack2 key")
  case (Inl e)
  with assms show ?thesis by (simp add: deploy_marker_def idle_def)
next
  case (Inr mm)
  obtain m mfs where mm: "mm = (m, mfs)" by (cases mm)
  show ?thesis
  proof (cases "m \<in> finished (plan c)")
    case True
    with assms Inr mm show ?thesis by (simp add: deploy_marker_def idle_def)
  next
    case nfin: False
    show ?thesis
    proof (cases "dependency (plan c)")
      case None
      with assms Inr mm nfin show ?thesis by (simp add: deploy_marker_def idle_def)
    next
      case (Some dep)
      show ?thesis
      proof (cases "dep m")
        case None
        with assms Inr mm nfin Some show ?thesis by (simp add: deploy_marker_def idle_def)
      next
        case pr: (Some prereqs)
        show ?thesis
        proof (cases "prereqs - finished (plan c) \<noteq> {}")
          case True
          with assms Inr mm nfin Some pr show ?thesis by (simp add: deploy_marker_def idle_def)
        next
          case False
          then have sub: "prereqs \<subseteq> finished (plan c)" by auto
          obtain r1 R1 c1 where i: "initiate m mfs R c = (r1, R1, c1)"
            by (cases "initiate m mfs R c") auto
          from initiate_summary [OF i assms(2)] obtain evs1
            where e1: "history c1 = history c @ evs1"
              "manifests (plan c1) = manifests (plan c)"
              "dependency (plan c1) = dependency (plan c)"
              "finished (plan c1) = finished (plan c)"
              "\<forall>m'. m' \<noteq> m \<longrightarrow> R1 m' = R m'"
              "segment m r1 (tracked R m) (tracked R1 m) evs1" by blast
          show ?thesis
          proof (cases r1)
            case (Inl e)
            with assms(1) Inr mm nfin Some pr False i have "r = r1" "R' = R1" "c' = c1"
              by (simp_all add: deploy_marker_def)
            with e1 nfin Some pr sub show ?thesis
              by (intro exI [of _ evs1]) (auto simp: active_def)
          next
            case u: (Inr u)
            with assms(1) Inr mm nfin Some pr False i
            have ce: "check_end m R1 c1 = (r, R', c')" by (simp add: deploy_marker_def)
            from e1(6) have "\<forall>g\<in>set (tracked R1 m). marker_of (task_of g) = Some m"
              by (simp add: segment_def)
            with assms(2) e1(5) have wf1: "wf_runners R1" by (rule wf_runners_update)
            from check_end_summary [OF ce wf1] obtain evs2
              where e2: "history c' = history c1 @ evs2"
                "manifests (plan c') = manifests (plan c1)"
                "dependency (plan c') = dependency (plan c1)"
                "\<forall>m'. m' \<noteq> m \<longrightarrow> R' m' = R1 m'"
                "segment m r (tracked R1 m) (tracked R' m) evs2"
                "finished (plan c') = finished (plan c1)
                   \<or> finished (plan c') = insert m (finished (plan c1)) \<and> R' m = Some []
                     \<and> (\<forall>ob\<in>set evs2. \<not> failure ob)" by blast
            from u e1(6) have s1: "segment m (Inr ()) (tracked R m) (tracked R1 m) evs1" by simp
            then have nf1: "\<forall>ob\<in>set evs1. \<not> failure ob" by (simp add: segment_def)
            note seg = segment_trans [OF s1 e2(5)]
            have "active m r R c R' c' (evs1 @ evs2)"
              unfolding active_def
              using nfin Some pr sub e1(4,5) e2(4,6) seg nf1 by auto
            with e1(1,2,3) e2(1,2,3) show ?thesis
              by (intro exI [of _ "evs1 @ evs2"]) auto
          qed
        qed
      qed
    qed
  qed
qed

lemma active_wf:
  assumes "active m r R c R' c' evs" and "wf_runners R"
  shows "wf_runners R'"
  using assms(2)
proof (rule wf_runners_update)
  show "\<forall>m'. m' \<noteq> m \<longrightarrow> R' m' = R m'" using assms(1) by (simp add: active_def)
  show "\<forall>g\<in>set (tracked R' m). marker_of (task_of g) = Some m"
    using assms(1) by (simp add: active_def segment_def)
qed

lemma launches_about: "launches m ob \<Longrightarrow> about m ob"
  by (cases ob) (auto simp: about_def)

lemma split_append:
  assumes "xs @ ys = pre @ ob # post"
  shows "(\<exists>post0. xs = pre @ ob # post0 \<and> post = post0 @ ys)
       \<or> (\<exists>pre1. ys = pre1 @ ob # post \<and> pre = xs @ pre1)"
  using assms by (auto simp: append_eq_append_conv2 append_eq_Cons_conv)

lemma count_list_not_about:
  assumes "\<forall>ob\<in>set evs. about m ob" and "marker_of t \<noteq> Some m"
  shows "count_list evs (Started t) = 0" and "count_list evs (Finished t) = 0"
  using assms by (induct evs) (auto simp: about_def)

lemma in_order_extend:
  assumes ord: "in_order p evs"
    and ab: "\<forall>ob\<in>set evs1. about m ob"
    and nf: "m \<notin> fin"
    and pr: "prerequisites p m \<subseteq> fin"
    and la: "\<forall>B A. (\<exists>ob\<in>set evs. launches B ob) \<and> A \<in> prerequisites p B \<longrightarrow> A \<in> fin"
    and bal: "\<forall>A\<in>fin. \<forall>t. marker_of t = Some A \<longrightarrow>
                count_list evs (Started t) = count_list evs (Finished t)"
  shows "in_order p (evs @ evs1)"
  unfolding in_order_def
proof (intro allI impI)
  fix pre ob post B A
  assume eq: "evs @ evs1 = pre @ ob # post" and l: "launches B ob"
    and r: "A \<in> prerequisites p B"
  from split_append [OF eq]
  show "(\<forall>t. marker_of t = Some A \<longrightarrow> count_list pre (Started t) = count_list pre (Finished t))
      \<and> (\<forall>ob'\<in>set post. \<not> about A ob')"
  proof
    assume "\<exists>post0. evs = pre @ ob # post0 \<and> post = post0 @ evs1"
    then obtain post0 where e: "evs = pre @ ob # post0" and p: "post = post0 @ evs1" by blast
    from ord e l r have a: "\<forall>t. marker_of t = Some A \<longrightarrow>
        count_list pre (Started t) = count_list pre (Finished t)"
      and b: "\<forall>ob'\<in>set post0. \<not> about A ob'"
      unfolding in_order_def by blast+
    from e l have "\<exists>ob\<in>set evs. launches B ob" by auto
    with la r have "A \<in> fin" by blast
    with nf have "A \<noteq> m" by auto
    with ab have "\<forall>ob'\<in>set evs1. \<not> about A ob'" by (auto simp: about_def)
    with a b p show ?thesis by auto
  next
    assume "\<exists>pre1. evs1 = pre1 @ ob # post \<and> pre = evs @ pre1"
    then obtain pre1 where e: "evs1 = pre1 @ ob # post" and p: "pre = evs @ pre1" by blast
    from e ab have "about m ob" by auto
    with launches_about [OF l] have "B = m" by (simp add: about_def)
    with r pr have fin: "A \<in> fin" by auto
    with nf have ne: "A \<noteq> m" by auto
    from e ab have ab1: "\<forall>ob\<in>set pre1. about m ob" and ab2: "\<forall>ob\<in>set post. about m ob"
      by auto
    have "count_list pre (Started t) = count_list pre (Finished t)" if "marker_of t = Some A" for t
    proof -
      from that ne have "marker_of t \<noteq> Some m" by simp
      from count_list_not_about [OF ab1 this] bal fin that show ?thesis
        by (simp add: p count_list_append)
    qed
    moreover from ab2 ne have "\<forall>ob'\<in>set post. \<not> about A ob'" by (auto simp: about_def)
    ultimately show ?thesis by blast
  qed
qed

lemma observed_self [simp]: "observed c c = []"
  by (simp add: observed_def)

lemma observed_append: "history c' = history c @ evs \<Longrightarrow> observed c c' = evs"
  by (simp add: observed_def)

lemma sound_start: "sound c (Inr ()) c"
  by (simp add: sound_def in_order_def)

lemma steady_start: "steady c Map.empty c"
  by (simp add: steady_def wf_runners_def tracked_def)

lemma failure_Failed: "failure ob \<longleftrightarrow> (\<exists>t x. ob = Failed t x)"
  by (cases ob) auto

lemma balanced_finished:
  assumes "sound c0 (Inr ()) c" and "steady c0 R c" and "A \<in> finished (plan c)"
    and "marker_of t = Some A"
  shows "count_list (observed c0 c) (Started t) = count_list (observed c0 c) (Finished t)"
proof (cases "A \<in> finished (plan c0)")
  case True
  with assms(1) have "\<forall>ob\<in>set (observed c0 c). \<not> about A ob" by (simp add: sound_def)
  then have "Started t \<notin> set (observed c0 c)" "Finished t \<notin> set (observed c0 c)"
    using assms(4) by (auto simp: about_def)
  then show ?thesis by (simp add: count_list_0_iff)
next
  case False
  with assms(2,3) have "R A = Some []" by (simp add: steady_def)
  then have "tracked R A = []" by (simp add: tracked_def)
  with assms(2,4) show ?thesis by (simp add: steady_def)
qed

lemma iteration_idle:
  assumes "sound c0 (Inr ()) c" and "steady c0 R c"
    and "history c' = history c" and "dependency (plan c') = dependency (plan c)"
    and "plan c' = plan c"
  shows "sound c0 r c' \<and> steady c0 R c'"
proof -
  from assms(1,3) have o: "observed c0 c' = observed c0 c" by (simp add: observed_def)
  from assms(2) have nf: "\<forall>ob\<in>set (observed c0 c). \<not> failure ob" by (simp add: steady_def)
  then have "\<And>t x. Failed t x \<notin> set (observed c0 c)" by (auto simp: failure_Failed)
  with assms show ?thesis by (simp add: sound_def steady_def o)
qed

lemma iteration_active:
  assumes so: "sound c0 (Inr ()) c" and st: "steady c0 R c"
    and h: "history c' = history c @ evs"
    and d: "dependency (plan c') = dependency (plan c)"
    and a: "active m r R c R' c' evs"
  shows "sound c0 r c' \<and> (r = Inr () \<longrightarrow> steady c0 R' c')"
proof -
  let ?old = "observed c0 c"
  from so have ho: "history c = history c0 @ ?old" by (simp add: sound_def)
  with h have hn: "history c' = history c0 @ (?old @ evs)" by simp
  then have o: "observed c0 c' = ?old @ evs" by (rule observed_append)
  from so have dep: "dependency (plan c) = dependency (plan c0)" by (simp add: sound_def)
  from a have nfin: "m \<notin> finished (plan c)"
    and seg: "segment m r (tracked R m) (tracked R' m) evs"
    and oth: "\<forall>m'. m' \<noteq> m \<longrightarrow> R' m' = R m'"
    and fin: "finished (plan c') = finished (plan c)
        \<or> finished (plan c') = insert m (finished (plan c)) \<and> R' m = Some []
           \<and> (\<forall>ob\<in>set evs. \<not> failure ob)"
    by (simp_all add: active_def)
  from a dep have pr: "prerequisites (plan c0) m \<subseteq> finished (plan c)"
    by (auto simp: active_def prerequisites_def)
  from seg have ab: "\<forall>ob\<in>set evs. about m ob" by (simp add: segment_def)
  from fin have mono: "finished (plan c) \<subseteq> finished (plan c')" by auto
  from st have nf0: "\<forall>ob\<in>set ?old. \<not> failure ob" by (simp add: steady_def)
  from so have la: "\<forall>B A. (\<exists>ob\<in>set ?old. launches B ob) \<and> A \<in> prerequisites (plan c0) B
      \<longrightarrow> A \<in> finished (plan c)" by (simp add: sound_def)
  have bal: "\<forall>A\<in>finished (plan c). \<forall>t. marker_of t = Some A \<longrightarrow>
      count_list ?old (Started t) = count_list ?old (Finished t)"
    using balanced_finished [OF so st] by blast
  from so have ord0: "in_order (plan c0) ?old" by (simp add: sound_def)
  have ord: "in_order (plan c0) (?old @ evs)"
    using ord0 ab nfin pr la bal by (rule in_order_extend)
  have la': "\<forall>B A. (\<exists>ob\<in>set (?old @ evs). launches B ob) \<and> A \<in> prerequisites (plan c0) B
      \<longrightarrow> A \<in> finished (plan c')"
  proof (intro allI impI)
    fix B A
    assume "(\<exists>ob\<in>set (?old @ evs). launches B ob) \<and> A \<in> prerequisites (plan c0) B"
    then obtain ob where ob: "ob \<in> set ?old \<or> ob \<in> set evs" "launches B ob"
      and r: "A \<in> prerequisites (plan c0) B" by auto
    from ob(1) have "A \<in> finished (plan c)"
    proof
      assume "ob \<in> set ?old"
      with la ob(2) r show ?thesis by blast
    next
      assume "ob \<in> set evs"
      with ab launches_about [OF ob(2)] have "B = m" by (auto simp: about_def)
      with r pr show ?thesis by auto
    qed
    with mono show "A \<in> finished (plan c')" by auto
  qed
  have quiet: "\<forall>m'\<in>finished (plan c0). \<forall>ob\<in>set (?old @ evs). \<not> about m' ob"
  proof (intro ballI)
    fix m' ob
    assume m': "m' \<in> finished (plan c0)" and ob: "ob \<in> set (?old @ evs)"
    from so m' have q: "\<forall>ob\<in>set ?old. \<not> about m' ob" by (simp add: sound_def)
    from so m' have "m' \<in> finished (plan c)" by (auto simp: sound_def)
    with nfin have "m' \<noteq> m" by auto
    with ab have "\<forall>ob\<in>set evs. \<not> about m' ob" by (auto simp: about_def)
    with q ob show "\<not> about m' ob" by auto
  qed
  have fail: "\<forall>t x. Failed t x \<in> set (?old @ evs) \<longrightarrow>
      r = Inl (Exc x) \<and> (\<forall>m'. marker_of t = Some m' \<longrightarrow> m' \<notin> finished (plan c'))"
  proof (intro allI impI)
    fix t x
    assume "Failed t x \<in> set (?old @ evs)"
    with nf0 have f: "Failed t x \<in> set evs" by auto
    with seg have r: "r = Inl (Exc x)" by (simp add: segment_def)
    from f fin have same: "finished (plan c') = finished (plan c)" by auto
    from f ab have "marker_of t = Some m" by (auto simp: about_def)
    with r same nfin
    show "r = Inl (Exc x) \<and> (\<forall>m'. marker_of t = Some m' \<longrightarrow> m' \<notin> finished (plan c'))"
      by simp
  qed
  from so mono have sub: "finished (plan c0) \<subseteq> finished (plan c')" by (auto simp: sound_def)
  have sound': "sound c0 r c'"
    unfolding sound_def o using hn d dep sub la' ord quiet fail by simp
  have steady': "steady c0 R' c'" if r: "r = Inr ()"
  proof -
    from seg r have nf1: "\<forall>ob\<in>set evs. \<not> failure ob"
      and cnt: "\<forall>t. count_list evs (Started t) + alive (tracked R m) t =
                    count_list evs (Finished t) + alive (tracked R' m) t"
      by (simp_all add: segment_def)
    from st have wf: "wf_runners R" by (simp add: steady_def)
    from a wf have wf': "wf_runners R'" by (rule active_wf)
    from st have cnt0: "\<forall>m t. marker_of t = Some m \<longrightarrow>
        count_list ?old (Started t) = count_list ?old (Finished t) + alive (tracked R m) t"
      by (simp add: steady_def)
    have cnt': "count_list (?old @ evs) (Started t) =
        count_list (?old @ evs) (Finished t) + alive (tracked R' m') t"
      if t: "marker_of t = Some m'" for m' t
    proof (cases "m' = m")
      case True
      with cnt0 t cnt [rule_format, of t] show ?thesis by (simp add: count_list_append)
    next
      case False
      with oth have "tracked R' m' = tracked R m'" by (simp add: tracked_def)
      moreover from False t have "marker_of t \<noteq> Some m" by simp
      note count_list_not_about [OF ab this]
      ultimately show ?thesis using cnt0 t by (simp add: count_list_append)
    qed
    have done': "R' m' = Some []"
      if "m' \<in> finished (plan c')" "m' \<notin> finished (plan c0)" for m'
    proof (cases "m' = m")
      case True
      with that nfin fin show ?thesis by auto
    next
      case False
      with that fin have "m' \<in> finished (plan c)" by auto
      with st that(2) have "R m' = Some []" by (simp add: steady_def)
      with oth False show ?thesis by simp
    qed
    show ?thesis
      unfolding steady_def o using wf' nf0 nf1 cnt' done' by auto
  qed
  from sound' steady' show ?thesis by blast
qed

lemma deploy_marker_invariant:
  assumes "sound c0 (Inr ()) c" and "steady c0 R c"
    and "deploy_marker key R c = (r, R', c')"
  shows "sound c0 r c' \<and> (r = Inr () \<longrightarrow> steady c0 R' c')"
proof -
  from assms(2) have wf: "wf_runners R" by (simp add: steady_def)
  from deploy_marker_summary [OF assms(3) wf] obtain evs
    where e: "history c' = history c @ evs"
      "dependency (plan c') = dependency (plan c)"
      "idle R c R' c' evs \<or> (\<exists>m. active m r R c R' c' evs)" by blast
  from e(3) show ?thesis
  proof
    assume i: "idle R c R' c' evs"
    with e have "history c' = history c" "plan c' = plan c" "R' = R" by (simp_all add: idle_def)
    with iteration_idle [OF assms(1,2) _ e(2), of r] show ?thesis by simp
  next
    assume "\<exists>m. active m r R c R' c' evs"
    then obtain m where "active m r R c R' c' evs" ..
    with assms(1,2) e(1,2) show ?thesis by (rule iteration_active)
  qed
qed

lemma scan_markers_invariant:
  assumes "sound c0 (Inr ()) c" and "steady c0 R c"
    and "scan_markers keys R c = (r, R', c')"
  shows "sound c0 r c' \<and> (r = Inr () \<longrightarrow> steady c0 R' c')"
  using assms
proof (induct keys arbitrary: R c)
  case Nil
  then show ?case by simp
next
  case (Cons key keys)
  obtain r1 R1 c1 where d: "deploy_marker key R c = (r1, R1, c1)"
    by (cases "deploy_marker key R c") auto
  note inv = deploy_marker_invariant [OF Cons.prems(1,2) d]
  show ?case
  proof (cases r1)
    case (Inl e)
    with Cons.prems(3) d inv show ?thesis by auto
  next
    case (Inr u)
    with Cons.prems(3) d have "scan_markers keys R1 c1 = (r, R', c')" by simp
    moreover from inv Inr have "sound c0 (Inr ()) c1" "steady c0 R1 c1" by simp_all
    ultimately show ?thesis using Cons.hyps by blast
  qed
qed

lemma sound_any: "sound c0 (Inr ()) c \<Longrightarrow> sound c0 r c"
  by (auto simp: sound_def)

lemma deployment_loop_sound:
  assumes "deployment_loop R c = Some y" and "sound c0 (Inr ()) c" and "steady c0 R c"
  shows "sound c0 (fst y) (snd y)"
  using assms
proof (induct rule: deployment_loop_induct)
  case (stop R c)
  then show ?case by simp
next
  case (error R c e R1 c1)
  from scan_markers_invariant [OF error(3,4,2)] show ?case by simp
next
  case (continue R c R1 c1 y)
  from scan_markers_invariant [OF continue(4,5,2)]
  have "sound c0 (Inr ()) c1" "steady c0 R1 c1" by simp_all
  then show ?case by (rule continue(3))
qed

lemma sound_delivered:
  assumes "sound c0 r c"
  shows "sound (c0\<lparr>delivered := d0\<rparr>) r (c\<lparr>delivered := d\<rparr>)"
    and "sound c0 r (c\<lparr>delivered := d\<rparr>)"
  using assms by (simp_all add: sound_def observed_def)

lemma sound_from_delivered:
  assumes "sound (c0\<lparr>delivered := d0\<rparr>) r c"
  shows "sound c0 r c"
  using assms by (simp add: sound_def observed_def)

lemma run_deployment_sound:
  assumes "run_deployment c = Some (r, c')"
  shows "sound c r c'"
proof (cases "''status'' \<in> callbacks c")
  case False
  with assms have "r = Inl (KeyError (PStr ''status''))" "c' = c"
    by (simp_all add: run_deployment_def status_def)
  with sound_start [of c] show ?thesis by (simp add: sound_any)
next
  case True
  define c1 where "c1 = c\<lparr>delivered := delivered c @ [(''phase'', ''deployment'', ''start'')]\<rparr>"
  from True have st: "status ''phase'' ''deployment'' ''start'' c = (Inr (), c1)"
    by (simp add: status_def c1_def)
  show ?thesis
  proof (cases "deployment_loop Map.empty c1")
    case None
    with assms st show ?thesis by (simp add: run_deployment_def)
  next
    case (Some y)
    obtain r2 c2 where y: "y = (r2, c2)" by (cases y)
    from deployment_loop_sound [OF Some sound_start steady_start] y
    have s2: "sound c1 r2 c2" by simp
    then have s3: "sound c r2 c2" unfolding c1_def by (rule sound_from_delivered)
    show ?thesis
    proof (cases r2)
      case (Inl e)
      with assms st Some y s3 show ?thesis by (simp add: run_deployment_def)
    next
      case (Inr u)
      with assms st Some y have "(r, c') = status ''phase'' ''deployment'' ''end'' c2"
        by (simp add: run_deployment_def)
      then have "c' = c2 \<or> c' = c2\<lparr>delivered := delivered c2 @ [(''phase'', ''deployment'', ''end'')]\<rparr>"
        by (auto simp: status_def split: if_splits)
      moreover from Inr s3 have "sound c r c2" by (simp add: sound_any)
      ultimately show ?thesis using sound_delivered(2) by auto
    qed
  qed
qed

lemmas eval_defs = paired_def paired_plan_def key_of_def chain_def quiet_drone_def
  deploy_marker_def unpack2_def initiate_def check_end_def find_drone_def
  deploy_greenlet_def start_def observe_def add_runner_def status_def run_deployment_def






lemma deploy_marker_blocked:
  "blocked (plan c) key \<Longrightarrow> deploy_marker key R c = (Inr (), R, c)"
  by (auto simp: blocked_def deploy_marker_def split: sum.splits option.splits)

lemma scan_markers_blocked:
  "\<forall>key\<in>set keys. blocked (plan c) key \<Longrightarrow> scan_markers keys R c = (Inr (), R, c)"
  by (induct keys) (simp_all add: deploy_marker_blocked)












lemma planning_partitioned: "planning p \<Longrightarrow> partitioned p"
  by (auto simp: planning_def partitioned_def)






lemma run_deployment_failure:
  assumes "run_deployment c = Some (r, c')"
    and "Failed (DeployTask M h mf) x \<in> set (observed c c')"
  shows "r = Inl (Exc x) \<and> M \<notin> finished (plan c') \<and> history c' = history c @ observed c c'"
proof -
  from run_deployment_sound [OF assms(1)] have s: "sound c r c'" .
  with assms(2) show ?thesis unfolding sound_def by auto
qed


lemma boom_run: "run_deployment boom_site = Some (Inl (Exc ''boom''), boom_done)"
  unfolding boom_site_def boom_done_def task_A_def
  apply (simp add: run_deployment_def status_def paired_def paired_plan_def)
  apply (subst deployment_loop.simps)
  apply (simp add: eval_defs)
  done




lemma missing_stuck:
  "stuck (plan (paired missing (0, Returns))) {PStr ''A'', PStr ''B'', PStr ''Z''}"
  by (auto simp: stuck_def paired_def paired_plan_def missing_def split: if_splits)

subsection \<open>The first passes of the deployment loop\<close>

lemma deployment_passes_raise:
  "deployment_passes n R c = (Inl e, R', c') \<Longrightarrow> deployment_loop R c = Some (Inl e, c')"
proof (induct n arbitrary: R c)
  case 0
  then show ?case by simp
next
  case (Suc n)
  show ?case
  proof (cases "waiting (plan c) \<noteq> {} \<or> in_progress (plan c) \<noteq> {}")
    case False
    with Suc.prems show ?thesis by simp
  next
    case True
    obtain r1 R1 c1 where s: "scan_markers (map fst (manifests (plan c))) R c = (r1, R1, c1)"
      by (cases "scan_markers (map fst (manifests (plan c))) R c") auto
    show ?thesis
    proof (cases r1)
      case (Inl e1)
      with Suc.prems True s have "e1 = e" "c1 = c'" by simp_all
      with True s Inl show ?thesis by (subst deployment_loop.simps) simp
    next
      case (Inr u)
      with Suc.prems True s have "deployment_passes n R1 c1 = (Inl e, R', c')" by simp
      then have "deployment_loop R1 c1 = Some (Inl e, c')" by (rule Suc.hyps)
      with True s Inr show ?thesis by (subst deployment_loop.simps) simp
    qed
  qed
qed

lemma deployment_passes_end:
  assumes "deployment_passes n R c = (Inr (), R', c')"
    and "waiting (plan c') = {}" and "in_progress (plan c') = {}"
  shows "deployment_loop R c = Some (Inr (), c')"
  using assms
proof (induct n arbitrary: R c)
  case 0
  then show ?case by (subst deployment_loop.simps) simp
next
  case (Suc n)
  show ?case
  proof (cases "waiting (plan c) \<noteq> {} \<or> in_progress (plan c) \<noteq> {}")
    case False
    with Suc.prems show ?thesis by (subst deployment_loop.simps) simp
  next
    case True
    obtain r1 R1 c1 where s: "scan_markers (map fst (manifests (plan c))) R c = (r1, R1, c1)"
      by (cases "scan_markers (map fst (manifests (plan c))) R c") auto
    show ?thesis
    proof (cases r1)
      case (Inl e1)
      with Suc.prems True s show ?thesis by simp
    next
      case (Inr u)
      with Suc.prems True s have "deployment_passes n R1 c1 = (Inr (), R', c')" by simp
      from Suc.hyps [OF this Suc.prems(2,3)] True s Inr
      show ?thesis by (subst deployment_loop.simps) simp
    qed
  qed
qed

lemma deployment_loop_passes:
  assumes "deployment_loop R c = Some y"
  shows "\<exists>n R'. deployment_passes n R c = (fst y, R', snd y)"
  using assms
proof (induct rule: deployment_loop_induct)
  case (stop R c)
  have "deployment_passes 0 R c = (Inr (), R, c)" by simp
  then show ?case by (metis fst_conv snd_conv)
next
  case (error R c e R1 c1)
  then have "deployment_passes (Suc 0) R c = (Inl e, R1, c1)" by simp
  then show ?case by (metis fst_conv snd_conv)
next
  case (continue R c R1 c1 y)
  then obtain n R' where "deployment_passes n R1 c1 = (fst y, R', snd y)" by blast
  with continue(1,2) have "deployment_passes (Suc n) R c = (fst y, R', snd y)" by simp
  then show ?case by blast
qed

lemma deployment_passes_invariant:
  assumes "sound c0 (Inr ()) c" and "steady c0 R c"
    and "deployment_passes n R c = (r, R', c')"
  shows "sound c0 r c' \<and> (r = Inr () \<longrightarrow> steady c0 R' c')"
  using assms
proof (induct n arbitrary: R c)
  case 0
  then show ?case by simp
next
  case (Suc n)
  show ?case
  proof (cases "waiting (plan c) \<noteq> {} \<or> in_progress (plan c) \<noteq> {}")
    case False
    with Suc.prems show ?thesis by auto
  next
    case True
    obtain r1 R1 c1 where s: "scan_markers (map fst (manifests (plan c))) R c = (r1, R1, c1)"
      by (cases "scan_markers (map fst (manifests (plan c))) R c") auto
    note inv = scan_markers_invariant [OF Suc.prems(1,2) s]
    show ?thesis
    proof (cases r1)
      case (Inl e1)
      with Suc.prems(3) True s inv show ?thesis by auto
    next
      case (Inr u)
      with Suc.prems(3) True s have "deployment_passes n R1 c1 = (r, R', c')" by simp
      moreover from inv Inr have "sound c0 (Inr ()) c1" "steady c0 R1 c1" by simp_all
      ultimately show ?thesis using Suc.hyps by blast
    qed
  qed
qed


lemma deployment_passes_keyless:
  assumes "dependency (plan c) = None"
  shows "\<exists>r. deployment_passes n R c = (r, R, c)"
proof (induct n)
  case 0
  show ?case by simp
next
  case (Suc n)
  from scan_markers_keyless [OF assms] obtain r1
    where s: "scan_markers (map fst (manifests (plan c))) R c = (r1, R, c)" by blast
  with Suc show ?case by (cases r1) auto
qed






lemma deployment_prefix_cases:
  "''status'' \<notin> callbacks c \<and>
     deployment_prefix n c = (Inl (KeyError (PStr ''status'')), Map.empty, c) \<or>
   ''status'' \<in> callbacks c \<and>
     deployment_prefix n c =
       deployment_passes n Map.empty
         (c\<lparr>delivered := delivered c @ [(''phase'', ''deployment'', ''start'')]\<rparr>)"
  by (simp add: deployment_prefix_def status_def)

lemma observed_delivered [simp]: "observed (c\<lparr>delivered := d\<rparr>) c' = observed c c'"
  by (simp add: observed_def)


lemma deployment_prefix_failure:
  assumes "deployment_prefix n c = (r, R', c')"
    and "Failed (DeployTask M h mf) x \<in> set (observed c c')"
  shows "r = Inl (Exc x) \<and> run_deployment c = Some (Inl (Exc x), c') \<and> M \<notin> finished (plan c')"
proof -
  define c1 where "c1 = c\<lparr>delivered := delivered c @ [(''phase'', ''deployment'', ''start'')]\<rparr>"
  from deployment_prefix_cases [of c n] show ?thesis
  proof (elim disjE conjE)
    assume "deployment_prefix n c = (Inl (KeyError (PStr ''status'')), Map.empty, c)"
    with assms show ?thesis by simp
  next
    assume reg: "''status'' \<in> callbacks c"
      and "deployment_prefix n c =
       deployment_passes n Map.empty
         (c\<lparr>delivered := delivered c @ [(''phase'', ''deployment'', ''start'')]\<rparr>)"
    with assms(1) have p: "deployment_passes n Map.empty c1 = (r, R', c')" by (simp add: c1_def)
    from deployment_passes_invariant [OF sound_start steady_start p]
    have "sound c1 r c'" by simp
    with assms(2) have r: "r = Inl (Exc x)" and f: "M \<notin> finished (plan c')"
      unfolding sound_def by (auto simp: c1_def)
    from p r have "deployment_loop Map.empty c1 = Some (Inl (Exc x), c')"
      by (simp add: deployment_passes_raise)
    with reg have "run_deployment c = Some (Inl (Exc x), c')"
      by (simp add: run_deployment_def status_def c1_def)
    with r f show ?thesis by simp
  qed
qed

lemma reachable_prefix:
  assumes "reachable c"
  shows "plan (snd (snd (deployment_prefix n c))) = plan c"
    and "history (snd (snd (deployment_prefix n c))) = history c"
proof -
  from reachable_planning [OF assms] have k: "dependency (plan c) = None" by simp
  define c1 where "c1 = c\<lparr>delivered := delivered c @ [(''phase'', ''deployment'', ''start'')]\<rparr>"
  have "dependency (plan c1) = None" using k by (simp add: c1_def)
  from deployment_passes_keyless [OF this, of n Map.empty] obtain r
    where "deployment_passes n Map.empty c1 = (r, Map.empty, c1)" by blast
  with deployment_prefix_cases [of c n]
  show "plan (snd (snd (deployment_prefix n c))) = plan c"
    and "history (snd (snd (deployment_prefix n c))) = history c"
    by (auto simp: c1_def)
qed

lemma deployment_prefix_raise:
  assumes "deployment_prefix n c = (Inl e, R, c1)"
  shows "run_deployment c = Some (Inl e, c1)"
proof -
  from deployment_prefix_cases [of c n] show ?thesis
  proof (elim disjE conjE)
    assume "''status'' \<notin> callbacks c"
      and "deployment_prefix n c = (Inl (KeyError (PStr ''status'')), Map.empty, c)"
    with assms show ?thesis by (simp add: run_deployment_def status_def)
  next
    assume reg: "''status'' \<in> callbacks c"
      and "deployment_prefix n c =
       deployment_passes n Map.empty
         (c\<lparr>delivered := delivered c @ [(''phase'', ''deployment'', ''start'')]\<rparr>)"
    with assms have "deployment_passes n Map.empty
         (c\<lparr>delivered := delivered c @ [(''phase'', ''deployment'', ''start'')]\<rparr>) =
       (Inl e, R, c1)" by simp
    then have "deployment_loop Map.empty
         (c\<lparr>delivered := delivered c @ [(''phase'', ''deployment'', ''start'')]\<rparr>) =
       Some (Inl e, c1)" by (rule deployment_passes_raise)
    with reg show ?thesis by (simp add: run_deployment_def status_def)
  qed
qed

lemma deployment_loop_returns:
  assumes "deployment_loop R c = Some y" and "fst y = Inr ()"
  shows "waiting (plan (snd y)) = {} \<and> in_progress (plan (snd y)) = {}"
  using assms
proof (induct rule: deployment_loop_induct)
  case (stop R c)
  then show ?case by simp
next
  case (error R c e R1 c1)
  then show ?case by simp
next
  case (continue R c R1 c1 y)
  then show ?case by simp
qed

lemma run_deployment_prefix:
  assumes "run_deployment c = Some (r, c')"
  shows "\<exists>n r1 R c1. deployment_prefix n c = (r1, R, c1)
           \<and> plan c' = plan c1 \<and> history c' = history c1
           \<and> (case r1 of Inl e \<Rightarrow> r = Inl e \<and> c' = c1
               | Inr u \<Rightarrow> waiting (plan c1) = {} \<and> in_progress (plan c1) = {}
                   \<and> (r, c') = status ''phase'' ''deployment'' ''end'' c1)"
proof (cases "''status'' \<in> callbacks c")
  case False
  with assms have "r = Inl (KeyError (PStr ''status''))" "c' = c"
    by (simp_all add: run_deployment_def status_def)
  moreover from False have "deployment_prefix 0 c = (Inl (KeyError (PStr ''status'')), Map.empty, c)"
    by (simp add: deployment_prefix_def status_def)
  ultimately show ?thesis by fastforce
next
  case True
  define c0 where "c0 = c\<lparr>delivered := delivered c @ [(''phase'', ''deployment'', ''start'')]\<rparr>"
  from True have pre: "deployment_prefix n c = deployment_passes n Map.empty c0" for n
    by (simp add: deployment_prefix_def status_def c0_def)
  from assms True obtain y where l: "deployment_loop Map.empty c0 = Some y"
    by (cases "deployment_loop Map.empty c0") (auto simp: run_deployment_def status_def c0_def)
  obtain r2 c2 where y: "y = (r2, c2)" by (cases y)
  from deployment_loop_passes [OF l] y obtain n R
    where p: "deployment_passes n Map.empty c0 = (r2, R, c2)" by auto
  show ?thesis
  proof (cases r2)
    case (Inl e)
    with assms True l y have "r = Inl e" "c' = c2"
      by (simp_all add: run_deployment_def status_def c0_def)
    with p pre Inl show ?thesis by fastforce
  next
    case (Inr u)
    with assms True l y have e: "(r, c') = status ''phase'' ''deployment'' ''end'' c2"
      by (simp add: run_deployment_def status_def c0_def)
    then have "plan c' = plan c2" "history c' = history c2"
      by (auto simp: status_def split: if_splits)
    moreover from deployment_loop_returns [OF l] y Inr
    have "waiting (plan c2) = {} \<and> in_progress (plan c2) = {}" by simp
    ultimately show ?thesis using p pre Inr e by fastforce
  qed
qed

lemma deployment_passes_blocked:
  assumes "\<forall>key\<in>fst ` set (manifests (plan c)). blocked (plan c) key"
  shows "deployment_passes n R c = (Inr (), R, c)"
proof (induct n)
  case 0
  show ?case by simp
next
  case (Suc n)
  from assms have "\<forall>key\<in>set (map fst (manifests (plan c))). blocked (plan c) key" by simp
  then have "scan_markers (map fst (manifests (plan c))) R c = (Inr (), R, c)"
    by (rule scan_markers_blocked)
  with Suc show ?case by simp
qed


lemma boom_prefix:
  "deployment_prefix (Suc 0) boom_site =
     (Inl (Exc ''boom''), [PStr ''A'' \<mapsto> [Greenlet task_A Dead]], boom_done)"
  unfolding boom_site_def boom_done_def task_A_def
  by (simp add: deployment_prefix_def status_def eval_defs)


section \<open>The claims\<close>

text \<open>
  C3. The plan phase is to register the manifest of every record with the drone of its
  host, add the marker to \<open>waiting\<close>, append the pair of host and manifest to the
  entry of the marker in \<open>manifests\<close>, and add the prerequisites to the entry of the
  marker in the dependency dictionary. On the plan that \<^verbatim>\<open>__init__\<close> creates,
  the phase raises \<^verbatim>\<open>KeyError('dependency')\<close> at the first record, after the first
  three effects: the constructor files the dictionary under \<^verbatim>\<open>'dependecy'\<close>. The
  second record is never reached, and the status callback receives no end of the step.
\<close>

theorem plan_phase_stops_at_first_record:
  "underscore_run_phase ''plan'' scenario =
     (Inl (KeyError (PStr ''dependency'')),
      scenario
        \<lparr>delivered := [(''phase'', ''plan'', ''start''), (''step'', ''plan_sql'', ''start'')],
         plan := empty_plan
           \<lparr>manifests := [(PStr ''markerA'', [(PStr ''host1'', PStr ''m1'')])],
            waiting := {PStr ''markerA''}\<rparr>,
         added := [(PStr ''host1'', PStr ''m1'')]\<rparr>)"
  by (rule plan_phase_scenario)

text \<open>
  C4. \<^verbatim>\<open>wait_for_runners\<close> is to switch between the runners until all of them are
  finished, so that every invocation of a step has ended before the next step begins. It
  makes one pass: a runner that hands control back once more is left alive in the set.
  In the \<^verbatim>\<open>prep\<close> phase of \<open>two_steps\<close> the callback is told that the step
  \<^verbatim>\<open>slow\<close> has ended, and the step \<^verbatim>\<open>fast\<close> starts and finishes, while the
  greenlet of \<^verbatim>\<open>slow\<close> has not finished; it never does.
\<close>

theorem wait_for_runners_makes_one_pass:
  "wait_for_runners [Greenlet (StepTask ''slow'' (PStr ''host1'')) (Callable 1 Returns)] two_steps =
     (Inr (), [Greenlet (StepTask ''slow'' (PStr ''host1'')) (Callable 0 Returns)], two_steps)
   \<and> underscore_run_phase ''prep'' two_steps =
     (Inr (),
      two_steps
        \<lparr>delivered :=
           [(''phase'', ''prep'', ''start''),
            (''step'', ''slow'', ''start''), (''step'', ''slow'', ''end''),
            (''step'', ''fast'', ''start''), (''step'', ''fast'', ''end''),
            (''phase'', ''prep'', ''end'')],
         history :=
           [Started (StepTask ''slow'' (PStr ''host1'')),
            Started (StepTask ''fast'' (PStr ''host1'')),
            Finished (StepTask ''fast'' (PStr ''host1''))]\<rparr>)"
  using wait_single_pass two_steps_prep by simp

text \<open>
  C7. In an \<^verbatim>\<open>init\<close> phase with one registered step and one host, the registered
  status callback is to receive the start of the phase, the start of the step, the end of
  the step and the end of the phase, in this order and nothing else, the events of the
  step around its execution. Whenever the phase returns, the callback has received these
  four events; the phase returns when the step does not raise in its first two runs and
  \<^verbatim>\<open>init_host\<close> and \<^verbatim>\<open>discover\<close> return. The events of the step are
  not around its execution: in the installation \<open>lazy\<close>, whose step hands control
  back twice, the end of the step and the end of the phase are delivered and the phase
  returns, while the greenlet of the step has started and has not finished.
  \<^verbatim>\<open>wait_for_runners\<close> has made its one pass (C4).
\<close>

theorem init_phase_status_events:
  "(''status'' \<in> callbacks c \<and> concat (map init_steps (plugins c)) = [st] \<and> drones c = [d] \<longrightarrow>
      (underscore_run_phase ''init'' c = (Inr (), c') \<longrightarrow>
         delivered c' =
           delivered c @
             [(''phase'', ''init'', ''start''), (''step'', func_name st, ''start''),
              (''step'', func_name st, ''end''), (''phase'', ''init'', ''end'')])
      \<and> ((snd (per_host st (host d)) = Returns \<or> 2 \<le> fst (per_host st (host d)))
           \<and> init_host d = Returns \<and> discover d = Inr facts \<longrightarrow>
         fst (underscore_run_phase ''init'' c) = Inr ()))
   \<and> map_sum id register_status_callback (init [lazy_plugin] [quiet_drone (PStr ''host1'')]) =
       Inr lazy
   \<and> underscore_run_phase ''init'' lazy =
       (Inr (),
        lazy
          \<lparr>delivered :=
             [(''phase'', ''init'', ''start''),
              (''step'', ''slow'', ''start''), (''step'', ''slow'', ''end''),
              (''phase'', ''init'', ''end'')],
           info := [PStr ''host1'' \<mapsto> PNone],
           history :=
             [Started (StepTask ''slow'' (PStr ''host1'')),
              Started (InstallTask (PStr ''host1''))]\<rparr>)"
proof -
  have "(underscore_run_phase ''init'' c = (Inr (), c') \<longrightarrow>
         delivered c' =
           delivered c @
             [(''phase'', ''init'', ''start''), (''step'', func_name st, ''start''),
              (''step'', func_name st, ''end''), (''phase'', ''init'', ''end'')])
      \<and> ((snd (per_host st (host d)) = Returns \<or> 2 \<le> fst (per_host st (host d)))
           \<and> init_host d = Returns \<and> discover d = Inr facts \<longrightarrow>
         fst (underscore_run_phase ''init'' c) = Inr ())"
    if a: "''status'' \<in> callbacks c" "concat (map init_steps (plugins c)) = [st]"
      "drones c = [d]"
    using init_phase_events_aux [OF a(1,2)] init_phase_returns [OF a] by blast
  with lazy_init lazy_run show ?thesis by blast
qed

theorem init_phase_status_events_witness:
  "''status'' \<in> callbacks two_steps
   \<and> concat (map init_steps (plugins two_steps)) = [fast_step]
   \<and> drones two_steps = [quiet_drone (PStr ''host1'')]
   \<and> fst (underscore_run_phase ''init'' two_steps) = Inr ()
   \<and> delivered (snd (underscore_run_phase ''init'' two_steps)) =
       [(''phase'', ''init'', ''start''), (''step'', ''fast'', ''start''),
        (''step'', ''fast'', ''end''), (''phase'', ''init'', ''end'')]
   \<and> history (snd (underscore_run_phase ''init'' two_steps)) =
       [Started (StepTask ''fast'' (PStr ''host1'')),
        Finished (StepTask ''fast'' (PStr ''host1'')),
        Started (InstallTask (PStr ''host1''))]"
proof -
  have h1: "''status'' \<in> callbacks two_steps" by (simp add: two_steps_def)
  have h2: "concat (map init_steps (plugins two_steps)) = [fast_step]"
    by (simp add: two_steps_def)
  have h3: "drones two_steps = [quiet_drone (PStr ''host1'')]" by (simp add: two_steps_def)
  note ev = init_phase_status_events
    [of two_steps fast_step "quiet_drone (PStr ''host1'')"
        "snd (underscore_run_phase ''init'' two_steps)" PNone]
  from ev h1 h2 h3 have ret: "fst (underscore_run_phase ''init'' two_steps) = Inr ()"
    by (simp add: quiet_drone_def fast_step_def)
  then have "underscore_run_phase ''init'' two_steps =
      (Inr (), snd (underscore_run_phase ''init'' two_steps))"
    by (metis prod.collapse)
  with ev h1 h2 h3 have "delivered (snd (underscore_run_phase ''init'' two_steps)) =
      delivered two_steps @
        [(''phase'', ''init'', ''start''), (''step'', func_name fast_step, ''start''),
         (''step'', func_name fast_step, ''end''), (''phase'', ''init'', ''end'')]"
    by blast
  then have "delivered (snd (underscore_run_phase ''init'' two_steps)) =
       [(''phase'', ''init'', ''start''), (''step'', ''fast'', ''start''),
        (''step'', ''fast'', ''end''), (''phase'', ''init'', ''end'')]"
    by (simp add: two_steps_def fast_step_def)
  moreover have "history (snd (underscore_run_phase ''init'' two_steps)) =
       [Started (StepTask ''fast'' (PStr ''host1'')),
        Finished (StepTask ''fast'' (PStr ''host1'')),
        Started (InstallTask (PStr ''host1''))]"
    by (simp add: two_steps_init)
  ultimately show ?thesis using h1 h2 h3 ret by simp
qed

text \<open>
  C8, as stated: every call of \<^verbatim>\<open>run_init\<close> and of \<^verbatim>\<open>run_cleanup\<close> raises
  an \<^verbatim>\<open>AttributeError\<close> before any step of a phase runs. This fails for
  \<^verbatim>\<open>run_cleanup\<close> on a controller without a status callback, which raises
  \<^verbatim>\<open>KeyError('status')\<close> at its first statement.
\<close>

theorem run_cleanup_without_callback:
  "init [scenario_plugin] [quiet_drone (PStr ''host1''), quiet_drone (PStr ''host2'')] = Inr fresh
   \<and> run_cleanup fresh = (Inl (KeyError (PStr ''status'')), fresh)"
proof -
  have "''status'' \<notin> callbacks fresh" by (simp add: fresh_def)
  then show ?thesis by (simp add: fresh_init run_cleanup_unregistered)
qed

text \<open>
  C8, amended: every call of \<^verbatim>\<open>run_init\<close> raises
  \<^verbatim>\<open>AttributeError\<close> for \<^verbatim>\<open>run_phase\<close> and leaves the controller as it was.
  A call of \<^verbatim>\<open>run_cleanup\<close> on a controller with a status callback delivers the
  start of the phase \<^verbatim>\<open>cleanup\<close> and then raises the same error; without a status
  callback it raises \<^verbatim>\<open>KeyError('status')\<close>. Neither runs a step of a phase: the
  history stays as it was.
\<close>

theorem run_init_and_run_cleanup_raise:
  "run_init c = (Inl (AttributeError ''run_phase''), c)
   \<and> run_cleanup c =
       (if ''status'' \<in> callbacks c
        then (Inl (AttributeError ''run_phase''),
              c\<lparr>delivered := delivered c @ [(''phase'', ''cleanup'', ''start'')]\<rparr>)
        else (Inl (KeyError (PStr ''status'')), c))
   \<and> history (snd (run_init c)) = history c
   \<and> history (snd (run_cleanup c)) = history c"
  by (simp add: run_init_raises run_cleanup_registered run_cleanup_unregistered)

theorem run_init_and_run_cleanup_raise_witness:
  "run_init scenario = (Inl (AttributeError ''run_phase''), scenario)
   \<and> run_cleanup scenario =
       (Inl (AttributeError ''run_phase''),
        scenario\<lparr>delivered := [(''phase'', ''cleanup'', ''start'')]\<rparr>)"
  using run_init_and_run_cleanup_raise [of scenario]
  by (simp add: scenario_def fresh_def register_status_callback_def)

text \<open>
  C9. On every plan that the controller has built and whose set \<open>waiting\<close> is not
  empty, \<^verbatim>\<open>run_deployment\<close> raises an error and deploys nothing: the plan and the
  history stay as they were, and it is the first scan of the markers that raises. Hence
  a call that returns has found \<open>waiting\<close> empty. A key that is not a sequence of two
  elements cannot be unpacked.
\<close>

theorem run_deployment_raises_on_first_scan:
  assumes "reachable c" and "waiting (plan c) \<noteq> {}"
  shows "(\<exists>e c'. run_deployment c = Some (Inl e, c') \<and> plan c' = plan c \<and> history c' = history c)
       \<and> (\<exists>e. scan_markers (map fst (manifests (plan c))) Map.empty c = (Inl e, Map.empty, c))
       \<and> (\<forall>key\<in>fst ` set (manifests (plan c)).
            (\<nexists>a b. iter key = Inr [a, b]) \<longrightarrow> (\<exists>e. deploy_marker key Map.empty c = (Inl e, Map.empty, c)
               \<and> unpack2 key = Inl e))"
proof -
  from reachable_planning [OF assms(1)]
  have k: "dependency (plan c) = None" by simp
  have "\<exists>e. deploy_marker key Map.empty c = (Inl e, Map.empty, c) \<and> unpack2 key = Inl e"
    if "\<nexists>a b. iter key = Inr [a, b]" for key
    using unpack2_not_pair [OF that] by (auto simp: deploy_marker_def)
  with run_deployment_raises [OF assms] first_scan_raises [OF assms]
  show ?thesis by blast
qed

theorem run_deployment_raises_on_first_scan_witness:
  "reachable planned_once \<and> waiting (plan planned_once) \<noteq> {}
   \<and> (\<exists>e c'. run_deployment planned_once = Some (Inl e, c')
         \<and> plan c' = plan planned_once \<and> history c' = history planned_once)
   \<and> scan_markers (map fst (manifests (plan planned_once))) Map.empty planned_once =
       (Inl ValueError, Map.empty, planned_once)"
proof -
  have h1: "reachable planned_once" by (rule reachable_planned_once)
  have p: "plan planned_once =
      empty_plan\<lparr>manifests := [(PStr ''markerA'', [(PStr ''host1'', PStr ''m1'')])],
                 waiting := {PStr ''markerA''}\<rparr>"
    by (simp add: planned_once_def plan_phase_scenario)
  have h2: "waiting (plan planned_once) \<noteq> {}" by (simp add: p)
  have s: "scan_markers (map fst (manifests (plan planned_once))) Map.empty planned_once =
       (Inl ValueError, Map.empty, planned_once)"
    by (simp add: p deploy_marker_def unpack2_def)
  from run_deployment_raises_on_first_scan [OF h1 h2] h1 h2 s show ?thesis by blast
qed

text \<open>
  C10, as stated: \<^verbatim>\<open>run_cleanup\<close> delivers the start of the phase
  \<^verbatim>\<open>cleanup\<close> and the end of the phase under the name \<^verbatim>\<open>cleanuo\<close>.
  On the installation \<open>two_steps\<close> it delivers the start of the phase, raises
  \<^verbatim>\<open>AttributeError\<close> for \<^verbatim>\<open>run_phase\<close>, and delivers no end of a
  phase under any name.
\<close>

theorem run_cleanup_delivers_no_end_event:
  "fst (run_cleanup two_steps) = Inl (AttributeError ''run_phase'')
   \<and> delivered (snd (run_cleanup two_steps)) = [(''phase'', ''cleanup'', ''start'')]
   \<and> (''phase'', ''cleanuo'', ''end'') \<notin> set (delivered (snd (run_cleanup two_steps)))"
proof -
  have "''status'' \<in> callbacks two_steps" by (simp add: two_steps_def)
  then have "run_cleanup two_steps =
     (Inl (AttributeError ''run_phase''),
      two_steps\<lparr>delivered := delivered two_steps @ [(''phase'', ''cleanup'', ''start'')]\<rparr>)"
    by (rule run_cleanup_registered)
  then show ?thesis by (simp add: two_steps_def)
qed

text \<open>
  C10, amended: every call of \<^verbatim>\<open>run_cleanup\<close> raises; it delivers the start
  of the phase \<^verbatim>\<open>cleanup\<close> when a status callback is registered, and nothing
  else; no drone is cleaned. The statements after the call of
  \<^verbatim>\<open>self.run_phase\<close>, which no call reaches, clean every drone and then
  deliver the end of the phase under the name \<^verbatim>\<open>cleanuo\<close>, when a status
  callback is registered and every \<^verbatim>\<open>clean\<close> returns. They deliver no end
  of the phase \<^verbatim>\<open>cleanup\<close>.
\<close>

theorem cleanup_end_is_misspelled:
  "fst (run_cleanup c) \<noteq> Inr ()
   \<and> delivered (snd (run_cleanup c)) =
       delivered c @ (if ''status'' \<in> callbacks c then [(''phase'', ''cleanup'', ''start'')] else [])
   \<and> history (snd (run_cleanup c)) = history c
   \<and> (''status'' \<in> callbacks c \<and> (\<forall>d\<in>set (drones c). clean d = Returns) \<longrightarrow>
        cleanup_rest c =
          (Inr (),
           c\<lparr>delivered := delivered c @ [(''phase'', ''cleanuo'', ''end'')],
             history := history c @ map (\<lambda>d. Finished (CleanTask (host d))) (drones c)\<rparr>))
   \<and> (''phase'', ''cleanup'', ''end'') \<notin>
       set (drop (length (delivered c)) (delivered (snd (cleanup_rest c))))"
proof -
  from cleanup_rest_delivered [of c] obtain new
    where n: "delivered (snd (cleanup_rest c)) = delivered c @ new"
      "(''phase'', ''cleanup'', ''end'') \<notin> set new" by blast
  then have "(''phase'', ''cleanup'', ''end'') \<notin>
       set (drop (length (delivered c)) (delivered (snd (cleanup_rest c))))" by simp
  moreover have "fst (run_cleanup c) \<noteq> Inr ()"
    by (cases "''status'' \<in> callbacks c")
       (simp_all add: run_cleanup_registered run_cleanup_unregistered)
  moreover have "delivered (snd (run_cleanup c)) =
       delivered c @ (if ''status'' \<in> callbacks c then [(''phase'', ''cleanup'', ''start'')] else [])"
    by (simp add: run_cleanup_registered run_cleanup_unregistered)
  moreover have "history (snd (run_cleanup c)) = history c"
    by (cases "''status'' \<in> callbacks c")
       (simp_all add: run_cleanup_registered run_cleanup_unregistered)
  ultimately show ?thesis using cleanup_rest_returns [of c] by blast
qed

theorem cleanup_end_is_misspelled_witness:
  "''status'' \<in> callbacks scenario
   \<and> map clean (drones scenario) = [Returns, Returns]
   \<and> cleanup_rest scenario =
       (Inr (),
        scenario
          \<lparr>delivered := [(''phase'', ''cleanuo'', ''end'')],
           history := [Finished (CleanTask (PStr ''host1'')), Finished (CleanTask (PStr ''host2''))]\<rparr>)
   \<and> delivered (snd (run_cleanup scenario)) = [(''phase'', ''cleanup'', ''start'')]"
proof -
  have h1: "''status'' \<in> callbacks scenario"
    by (simp add: scenario_def register_status_callback_def)
  have h2: "\<forall>d\<in>set (drones scenario). clean d = Returns"
    by (simp add: scenario_def register_status_callback_def fresh_def quiet_drone_def)
  note t = cleanup_end_is_misspelled [of scenario]
  from t h1 h2 have "cleanup_rest scenario =
          (Inr (),
           scenario\<lparr>delivered := delivered scenario @ [(''phase'', ''cleanuo'', ''end'')],
             history := history scenario @
               map (\<lambda>d. Finished (CleanTask (host d))) (drones scenario)\<rparr>)" by blast
  then have c1: "cleanup_rest scenario =
       (Inr (),
        scenario
          \<lparr>delivered := [(''phase'', ''cleanuo'', ''end'')],
           history := [Finished (CleanTask (PStr ''host1'')), Finished (CleanTask (PStr ''host2''))]\<rparr>)"
    by (simp add: scenario_def register_status_callback_def fresh_def quiet_drone_def)
  from t h1 have "delivered (snd (run_cleanup scenario)) =
      delivered scenario @ [(''phase'', ''cleanup'', ''start'')]" by simp
  then have c2: "delivered (snd (run_cleanup scenario)) = [(''phase'', ''cleanup'', ''start'')]"
    by (simp add: scenario_def register_status_callback_def fresh_def)
  have h3: "map clean (drones scenario) = [Returns, Returns]"
    by (simp add: scenario_def register_status_callback_def fresh_def quiet_drone_def)
  from h1 h3 c1 c2 show ?thesis by (intro conjI)
qed


text \<open>
  C1. The sets \<open>waiting\<close>, \<open>in_progress\<close> and \<open>finished\<close> of the plan
  are to hold the keys of \<open>manifests\<close> between them and to be pairwise disjoint at
  every point of a run, and every marker is to move from \<open>waiting\<close> to
  \<open>in_progress\<close> to \<open>finished\<close>. On every controller that the methods of
  the class can produce the sets are such a partition, but every marker waits and none is
  in progress or finished: \<^verbatim>\<open>run_deployment\<close> ends without moving a marker,
  and the plan is as it was after any number of passes of its loop. On the controller
  \<open>planned_once\<close> it raises \<^verbatim>\<open>ValueError\<close> at the first key, and
  \<^verbatim>\<open>markerA\<close> still waits.
\<close>

theorem markers_never_leave_waiting:
  "(reachable c \<longrightarrow>
      partitioned (plan c) \<and> waiting (plan c) = fst ` set (manifests (plan c))
      \<and> in_progress (plan c) = {} \<and> finished (plan c) = {}
      \<and> plan (snd (snd (deployment_prefix n c))) = plan c
      \<and> (\<exists>r c'. run_deployment c = Some (r, c') \<and> plan c' = plan c \<and> history c' = history c))
   \<and> reachable planned_once
   \<and> waiting (plan planned_once) = {PStr ''markerA''}
   \<and> run_deployment planned_once =
       Some (Inl ValueError,
             planned_once\<lparr>delivered :=
               [(''phase'', ''plan'', ''start''), (''step'', ''plan_sql'', ''start''),
                (''phase'', ''deployment'', ''start'')]\<rparr>)"
proof -
  have "partitioned (plan c) \<and> waiting (plan c) = fst ` set (manifests (plan c))
      \<and> in_progress (plan c) = {} \<and> finished (plan c) = {}
      \<and> plan (snd (snd (deployment_prefix n c))) = plan c
      \<and> (\<exists>r c'. run_deployment c = Some (r, c') \<and> plan c' = plan c \<and> history c' = history c)"
    if r: "reachable c"
  proof -
    from reachable_planning [OF r] have p: "planning (plan c)" by simp
    then have "partitioned (plan c)" by (rule planning_partitioned)
    moreover from p have "waiting (plan c) = fst ` set (manifests (plan c))"
      "in_progress (plan c) = {}" "finished (plan c) = {}" by (simp_all add: planning_def)
    moreover note reachable_prefix(1) [OF r, of n] reachable_run_deployment_ends [OF r]
    ultimately show ?thesis by blast
  qed
  moreover have "waiting (plan planned_once) = {PStr ''markerA''}"
    by (simp add: planned_once_eq)
  ultimately show ?thesis using reachable_planned_once planned_once_run by blast
qed

theorem markers_never_leave_waiting_witness:
  "reachable planned_once
   \<and> partitioned (plan planned_once)
   \<and> waiting (plan planned_once) = {PStr ''markerA''}
   \<and> in_progress (plan planned_once) = {} \<and> finished (plan planned_once) = {}
   \<and> waiting (plan (snd (snd (deployment_prefix 3 planned_once)))) = {PStr ''markerA''}
   \<and> (\<exists>r c'. run_deployment planned_once = Some (r, c') \<and> waiting (plan c') = {PStr ''markerA''})"
proof -
  have r: "reachable planned_once" by (rule reachable_planned_once)
  have w: "waiting (plan planned_once) = {PStr ''markerA''}" by (simp add: planned_once_eq)
  from markers_never_leave_waiting [of planned_once 3] r
  have "partitioned (plan planned_once)" "in_progress (plan planned_once) = {}"
    "finished (plan planned_once) = {}"
    "plan (snd (snd (deployment_prefix 3 planned_once))) = plan planned_once"
    "\<exists>r c'. run_deployment planned_once = Some (r, c') \<and> plan c' = plan planned_once
       \<and> history c' = history planned_once"
    by blast+
  with r w show ?thesis by auto
qed






text \<open>
  C6. If a deploy task of a marker \<open>M\<close> raises during \<^verbatim>\<open>run_deployment\<close>,
  the call ends by raising that exception and \<open>M\<close> is not in \<open>finished\<close>.
  First for the call up to any of its passes: once the failure of a deploy task has been
  observed, the call has ended there, with that exception. Then for a call that has
  ended: a failure observed in it is its result.
\<close>

theorem deploy_failure_propagates:
  "(deployment_prefix n c = (r, R, c1)
      \<and> Failed (DeployTask M h mf) x \<in> set (observed c c1) \<longrightarrow>
      r = Inl (Exc x) \<and> run_deployment c = Some (Inl (Exc x), c1) \<and> M \<notin> finished (plan c1))
   \<and> (run_deployment c = Some (r', c')
      \<and> Failed (DeployTask M h mf) x \<in> set (observed c c') \<longrightarrow>
      r' = Inl (Exc x) \<and> M \<notin> finished (plan c') \<and> history c' = history c @ observed c c')"
  using deployment_prefix_failure [of n c r R c1 M h mf x]
    run_deployment_failure [of c r' c' M h mf x]
  by blast

theorem deploy_failure_propagates_witness:
  "deployment_prefix (Suc 0) boom_site =
     (Inl (Exc ''boom''), [PStr ''A'' \<mapsto> [Greenlet task_A Dead]], boom_done)
   \<and> Failed task_A ''boom'' \<in> set (observed boom_site boom_done)
   \<and> run_deployment boom_site = Some (Inl (Exc ''boom''), boom_done)
   \<and> PStr ''A'' \<notin> finished (plan boom_done)
   \<and> PStr ''A'' \<in> in_progress (plan boom_done)
   \<and> history boom_done = history boom_site @ observed boom_site boom_done"
proof -
  note h1 = boom_prefix
  have h2: "Failed (DeployTask (PStr ''A'') (PStr ''host1'') (PStr ''m1'')) ''boom''
      \<in> set (observed boom_site boom_done)"
    by (simp add: observed_def boom_site_def boom_done_def paired_def task_A_def)
  note t = deploy_failure_propagates
    [of "Suc 0" boom_site "Inl (Exc ''boom'')" "[PStr ''A'' \<mapsto> [Greenlet task_A Dead]]"
        boom_done "PStr ''A''" "PStr ''host1''" "PStr ''m1''" "''boom''"
        "Inl (Exc ''boom'')" boom_done]
  from t h1 h2 have c1: "run_deployment boom_site = Some (Inl (Exc ''boom''), boom_done)"
    and c2: "PStr ''A'' \<notin> finished (plan boom_done)" by blast+
  from t c1 h2 have c3: "history boom_done = history boom_site @ observed boom_site boom_done"
    by blast
  have "PStr ''A'' \<in> in_progress (plan boom_done)" by (simp add: boom_done_def)
  with h1 h2 c1 c2 c3 show ?thesis by (simp add: task_A_def)
qed


end
